theory Spec2Isabelle
  imports Complex_Main "HOL-Library.Word" "HOL-Library.Log_Nat" "HOL-Library.Signed_Division"
begin

unbundle bit_operations_syntax

section \<open>Machine types of \<^verbatim>\<open>cam_os_wrapper.h\<close>\<close>

text \<open>
  \<^verbatim>\<open>typedef unsigned int u32; typedef signed int s32; typedef unsigned long long u64;\<close>
  A signed and an unsigned integer of one width share the word type; \<open>sint\<close> reads the
  signed value and \<open>unat\<close>/\<open>uint\<close> the unsigned one. The headers are GNU C
  (\<^verbatim>\<open>typeof\<close>, statement expressions, \<^verbatim>\<open>__attribute__\<close>), where \<^verbatim>\<open><<\<close> on a signed
  operand is the two's complement shift, so \<open>push_bit\<close> on the word models it.
  \<^verbatim>\<open>unsigned long\<close> has \<^verbatim>\<open>CAM_OS_BITS_PER_LONG\<close> bits: 64 on aarch64 and 32 otherwise.
\<close>

type_synonym s32 = "32 word"
type_synonym u32 = "32 word"
type_synonym u64 = "64 word"

section \<open>\<^verbatim>\<open>cam_os_util.h\<close>: find last set\<close>

text \<open>
  One block of \<^verbatim>\<open>CAM_OS_FLS\<close> on the pair of its two locals \<open>(x, r)\<close>:
  \<^verbatim>\<open>if (!(x & m)) { x <<= k; r -= k; }\<close>
  The blocks of the 64-bit \<^verbatim>\<open>_CAM_OS_FLS\<close> have the same shape on \<open>(word, num)\<close>, so the
  scanned value may be of any width; the counter is an \<^verbatim>\<open>int\<close>.
\<close>

definition fls_step :: "nat \<Rightarrow> 'a::len word \<Rightarrow> 'a word \<times> s32 \<Rightarrow> 'a word \<times> s32" where
  "fls_step k m xr =
     (case xr of (x, r) \<Rightarrow>
        if x AND m = 0 then (push_bit k x, r - of_nat k) else (x, r))"

text \<open>
  \<^verbatim>\<open>static FORCE_INLINE s32 CAM_OS_FLS(s32 x)\<close>: \<^verbatim>\<open>int r = 32; if (!x) return 0;\<close>, then the
  five blocks with the masks and shift counts of the source, in the source's order, and
  \<^verbatim>\<open>return r;\<close>.
\<close>

definition CAM_OS_FLS :: "s32 \<Rightarrow> s32" where
  "CAM_OS_FLS x =
     (if x = 0 then 0 else
      let s = (x, 32 :: s32);
          s = fls_step 16 0xffff0000 s;
          s = fls_step 8 0xff000000 s;
          s = fls_step 4 0xf0000000 s;
          s = fls_step 2 0xc0000000 s;
          s = fls_step 1 0x80000000 s
      in snd s)"

text \<open>
  \<^verbatim>\<open>CAM_OS_BITS_PER_LONG\<close> is fixed by the preprocessor: 64 under \<^verbatim>\<open>__aarch64__\<close>, 32 otherwise.
  Functions whose body is chosen by \<^verbatim>\<open>#if CAM_OS_BITS_PER_LONG == ...\<close> take the
  configuration as a parameter.
\<close>

datatype long_bits = Long32 | Long64

text \<open>
  \<^verbatim>\<open>CAM_OS_FLS64\<close> under \<^verbatim>\<open>CAM_OS_BITS_PER_LONG == 32\<close>:
  \<^verbatim>\<open>u32 h = x >> 32; if (h) return CAM_OS_FLS(h) + 32; return CAM_OS_FLS(x);\<close>
  Passing the \<^verbatim>\<open>u64\<close> to the \<^verbatim>\<open>s32\<close> parameter keeps its low 32 bits.
\<close>

definition CAM_OS_FLS64_long32 :: "u64 \<Rightarrow> s32" where
  "CAM_OS_FLS64_long32 x =
     (let h = (ucast (drop_bit 32 x) :: u32)
      in if h \<noteq> 0 then CAM_OS_FLS h + 32 else CAM_OS_FLS (ucast x))"

text \<open>
  \<^verbatim>\<open>_CAM_OS_FLS(u64 word)\<close> under \<^verbatim>\<open>CAM_OS_BITS_PER_LONG == 64\<close>:
  \<^verbatim>\<open>s32 num = CAM_OS_BITS_PER_LONG - 1;\<close>, then for \<open>k\<close> = 32, 16, 8, 4, 2 the block
  \<^verbatim>\<open>if (!(word & (~0ul << (CAM_OS_BITS_PER_LONG-k)))) { num -= k; word <<= k; }\<close>
  and the last test \<^verbatim>\<open>if (!(word & (~0ul << (CAM_OS_BITS_PER_LONG-1)))) num -= 1;\<close>, which
  leaves \<^verbatim>\<open>word\<close> alone.
\<close>

definition u_CAM_OS_FLS :: "u64 \<Rightarrow> s32" where
  "u_CAM_OS_FLS word =
     (let s = (word, 64 - 1 :: s32);
          s = fls_step 32 (push_bit 32 (NOT 0)) s;
          s = fls_step 16 (push_bit (64 - 16) (NOT 0)) s;
          s = fls_step 8 (push_bit (64 - 8) (NOT 0)) s;
          s = fls_step 4 (push_bit (64 - 4) (NOT 0)) s;
          s = fls_step 2 (push_bit (64 - 2) (NOT 0)) s
      in if fst s AND push_bit (64 - 1) (NOT 0) = 0 then snd s - 1 else snd s)"

definition CAM_OS_FLS64_long64 :: "u64 \<Rightarrow> s32" where
  "CAM_OS_FLS64_long64 x = (if x = 0 then 0 else u_CAM_OS_FLS x + 1)"

fun CAM_OS_FLS64 :: "long_bits \<Rightarrow> u64 \<Rightarrow> s32" where
  "CAM_OS_FLS64 Long32 x = CAM_OS_FLS64_long32 x"
| "CAM_OS_FLS64 Long64 x = CAM_OS_FLS64_long64 x"

section \<open>\<^verbatim>\<open>cam_os_util_hash.h\<close>: integer logarithm\<close>

definition u_CAM_OS_ILOG2_U32 :: "u32 \<Rightarrow> s32" where
  "u_CAM_OS_ILOG2_U32 n = CAM_OS_FLS n - 1"

definition u_CAM_OS_ILOG2_U64 :: "long_bits \<Rightarrow> u64 \<Rightarrow> s32" where
  "u_CAM_OS_ILOG2_U64 cfg n = CAM_OS_FLS64 cfg n - 1"

text \<open>
  The constant-expression branch of \<^verbatim>\<open>CAM_OS_ILOG2\<close> after its \<^verbatim>\<open>(n) < 1\<close> test: the chain
  \<^verbatim>\<open>(n) & (1ULL << 63) ? 63 : (n) & (1ULL << 62) ? 62 : ... : (n) & (1ULL << 0) ? 0 : 0\<close>.
  The 64 tests run from bit 63 down to bit 0 and the first that succeeds gives the
  value; \<open>n\<close> is the operand converted to \<^verbatim>\<open>unsigned long long\<close>.
\<close>

definition ilog2_chain :: "u64 \<Rightarrow> s32" where
  "ilog2_chain n =
     (case find (\<lambda>k. n AND push_bit k 1 \<noteq> 0) (rev [0..<64]) of
        Some k \<Rightarrow> of_nat k
      | None \<Rightarrow> 0)"

text \<open>
  \<^verbatim>\<open>CAM_OS_ILOG2(n)\<close>. The operand of the macro is an integer expression of any type: it is
  given by its value \<open>n\<close> and its \<^verbatim>\<open>sizeof\<close>, and \<open>const\<close> is \<^verbatim>\<open>__builtin_constant_p(n)\<close>.
  The comparison \<^verbatim>\<open>(n) < 1\<close> is made in the operand's own type; the conversions to
  \<^verbatim>\<open>unsigned long long\<close>, \<^verbatim>\<open>u32\<close> and \<^verbatim>\<open>u64\<close> reduce the value modulo \<open>2\<^sup>6\<^sup>4\<close> or \<open>2\<^sup>3\<^sup>2\<close>.
\<close>

definition CAM_OS_ILOG2 :: "long_bits \<Rightarrow> bool \<Rightarrow> nat \<Rightarrow> int \<Rightarrow> s32" where
  "CAM_OS_ILOG2 cfg const sizeof_n n =
     (if const then (if n < 1 then 0 else ilog2_chain (word_of_int n))
      else if sizeof_n \<le> 4 then u_CAM_OS_ILOG2_U32 (word_of_int n)
      else u_CAM_OS_ILOG2_U64 cfg (word_of_int n))"

section \<open>\<^verbatim>\<open>cam_os_util_bitmap.h\<close>: find first set and bitmaps\<close>

text \<open>
  \<^verbatim>\<open>static inline int CAM_OS_FFS(unsigned long x) { return CAM_OS_FLS(x & -x); }\<close>
  The argument is an \<^verbatim>\<open>unsigned long\<close> of \<^verbatim>\<open>CAM_OS_BITS_PER_LONG\<close> bits, the width \<open>'a\<close>
  here; \<^verbatim>\<open>CAM_OS_FLS\<close> takes an \<^verbatim>\<open>s32\<close>, so the call converts \<^verbatim>\<open>x & -x\<close> to 32 bits
  (\<open>ucast\<close>, the identity when \<^verbatim>\<open>unsigned long\<close> has 32 bits).
\<close>

definition CAM_OS_FFS :: "'a::len word \<Rightarrow> s32" where
  "CAM_OS_FFS x = CAM_OS_FLS (ucast (x AND - x))"

text \<open>
  \<^verbatim>\<open>static inline unsigned long _CAM_OS_FFS(unsigned long x) { return CAM_OS_FFS(x) - 1; }\<close>
  The \<^verbatim>\<open>int\<close> result is converted to \<^verbatim>\<open>unsigned long\<close> (sign extension, \<open>scast\<close>).
\<close>

definition u_CAM_OS_FFS :: "'a::len word \<Rightarrow> 'a word" where
  "u_CAM_OS_FFS x = scast (CAM_OS_FFS x - 1)"

text \<open>\<^verbatim>\<open>#define CAM_OS_FFZ(x) _CAM_OS_FFS( ~(x) )\<close>\<close>

definition CAM_OS_FFZ :: "'a::len word \<Rightarrow> 'a word" where
  "CAM_OS_FFZ x = u_CAM_OS_FFS (NOT x)"

text \<open>
  The bit number of the bitmap operations is an \<^verbatim>\<open>s32 nr\<close> and \<^verbatim>\<open>CAM_OS_BITS_PER_LONG\<close> is
  the \<^verbatim>\<open>int\<close> constant 32 or 64, so \<^verbatim>\<open>(nr) % CAM_OS_BITS_PER_LONG\<close>,
  \<^verbatim>\<open>(nr) / CAM_OS_BITS_PER_LONG\<close> and \<^verbatim>\<open>nr & (CAM_OS_BITS_PER_LONG-1)\<close> are computed in
  \<^verbatim>\<open>int\<close>. The arithmetic of \<^verbatim>\<open>int\<close> is modelled with its undefined cases as \<open>None\<close>:

  \<^item> \<open>s32_result k\<close> is the result of an operation whose mathematical value is \<open>k\<close>:
    the value when an \<^verbatim>\<open>int\<close> can hold it, undefined on overflow;
  \<^item> \<^verbatim>\<open>a / b\<close> truncates toward zero and \<^verbatim>\<open>a % b\<close> has the sign of \<open>a\<close> (\<open>sdiv\<close> and \<open>smod\<close>
    on the values); both are undefined for \<open>b = 0\<close> and when the quotient overflows;
  \<^item> a shift is undefined when its count is negative or not less than the width of the
    shifted operand;
  \<^item> \<^verbatim>\<open>addr[i]\<close> and \<^verbatim>\<open>*(addr + i)\<close> are defined for \<open>0 \<le> i < length addr\<close>.
\<close>

definition s32_result :: "int \<Rightarrow> s32 option" where
  "s32_result k = (if - (2 ^ 31) \<le> k \<and> k < 2 ^ 31 then Some (word_of_int k) else None)"

definition s32_add :: "s32 \<Rightarrow> s32 \<Rightarrow> s32 option" where
  "s32_add a b = s32_result (sint a + sint b)"

definition s32_sub :: "s32 \<Rightarrow> s32 \<Rightarrow> s32 option" where
  "s32_sub a b = s32_result (sint a - sint b)"

definition s32_div :: "s32 \<Rightarrow> s32 \<Rightarrow> s32 option" where
  "s32_div a b = (if b = 0 then None else s32_result (sint a sdiv sint b))"

definition s32_mod :: "s32 \<Rightarrow> s32 \<Rightarrow> s32 option" where
  "s32_mod a b = Option.bind (s32_div a b) (\<lambda>_. s32_result (sint a smod sint b))"

definition shift_left_s32 :: "'a::len word \<Rightarrow> s32 \<Rightarrow> 'a word option" where
  "shift_left_s32 x n =
     (if 0 \<le> sint n \<and> sint n < int LENGTH('a) then Some (push_bit (nat (sint n)) x) else None)"

definition shift_right_s32 :: "'a::len word \<Rightarrow> s32 \<Rightarrow> 'a word option" where
  "shift_right_s32 x n =
     (if 0 \<le> sint n \<and> sint n < int LENGTH('a) then Some (drop_bit (nat (sint n)) x) else None)"

definition word_at :: "'a::len word list \<Rightarrow> s32 \<Rightarrow> 'a word option" where
  "word_at addr i =
     (if 0 \<le> sint i \<and> nat (sint i) < length addr then Some (addr ! nat (sint i)) else None)"

text \<open>
  A bitmap is an array of \<^verbatim>\<open>unsigned long\<close>: a list of words of width \<open>'a\<close>, and
  \<^verbatim>\<open>CAM_OS_BITS_PER_LONG\<close> is that width as an \<^verbatim>\<open>int\<close>.
  \<^verbatim>\<open>#define CAM_OS_BIT_MASK(nr) (1UL << ((nr) % CAM_OS_BITS_PER_LONG))\<close>
  \<^verbatim>\<open>#define CAM_OS_BIT_WORD(nr) ((nr) / CAM_OS_BITS_PER_LONG)\<close>
  For a negative \<open>nr\<close> the remainder is negative or zero and the quotient is rounded
  toward zero: \<^verbatim>\<open>CAM_OS_BIT_WORD(-1)\<close> is 0 and \<^verbatim>\<open>CAM_OS_BIT_MASK(-1)\<close> shifts by \<open>-1\<close>.
\<close>

definition CAM_OS_BITS_PER_LONG :: "'a::len itself \<Rightarrow> s32" where
  "CAM_OS_BITS_PER_LONG _ = of_nat LENGTH('a)"

definition CAM_OS_BIT_MASK :: "s32 \<Rightarrow> 'a::len word option" where
  "CAM_OS_BIT_MASK nr =
     Option.bind (s32_mod nr (CAM_OS_BITS_PER_LONG TYPE('a))) (shift_left_s32 1)"

definition CAM_OS_BIT_WORD :: "'a::len itself \<Rightarrow> s32 \<Rightarrow> s32 option" where
  "CAM_OS_BIT_WORD t nr = s32_div nr (CAM_OS_BITS_PER_LONG t)"

text \<open>
  \<^verbatim>\<open>#define CAM_OS_DIV_ROUND_UP(n,d) (((n) + (d) - 1) / (d))\<close>
  \<^verbatim>\<open>#define CAM_OS_BITS_TO_LONGS(nr) CAM_OS_DIV_ROUND_UP(nr, CAM_OS_BITS_PER_LONG)\<close>
  The macros take the type of their arguments; they are modelled at \<^verbatim>\<open>int\<close>, the type of
  \<^verbatim>\<open>CAM_OS_BITS_PER_LONG\<close> and of a bit number. The sum \<^verbatim>\<open>(n) + (d)\<close> is formed first, then
  1 is subtracted, then the quotient is taken, each step in \<^verbatim>\<open>int\<close>.
\<close>

definition CAM_OS_DIV_ROUND_UP :: "s32 \<Rightarrow> s32 \<Rightarrow> s32 option" where
  "CAM_OS_DIV_ROUND_UP n d =
     Option.bind (s32_add n d) (\<lambda>s. Option.bind (s32_sub s 1) (\<lambda>t. s32_div t d))"

definition CAM_OS_BITS_TO_LONGS :: "'a::len itself \<Rightarrow> s32 \<Rightarrow> s32 option" where
  "CAM_OS_BITS_TO_LONGS t nr = CAM_OS_DIV_ROUND_UP nr (CAM_OS_BITS_PER_LONG t)"

text \<open>
  \<^verbatim>\<open>#define CAM_OS_DECLARE_BITMAP(name,bits) unsigned long name[CAM_OS_BITS_TO_LONGS(bits)]\<close>
  The declaration gives an array of that many words with any contents; it is no
  declaration when the size is undefined or negative. For \<open>bits = 2147483647\<close> the sum
  \<^verbatim>\<open>(n) + (d)\<close> overflows, and a compiler that folds it with wrap-around gets a negative
  size: there is no array either way.
\<close>

definition CAM_OS_DECLARE_BITMAP :: "s32 \<Rightarrow> 'a::len word list \<Rightarrow> bool" where
  "CAM_OS_DECLARE_BITMAP bits name \<longleftrightarrow>
     (case CAM_OS_BITS_TO_LONGS TYPE('a) bits of
        None \<Rightarrow> False
      | Some n \<Rightarrow> 0 \<le> sint n \<and> length name = nat (sint n))"

text \<open>
  \<^verbatim>\<open>unsigned long mask = CAM_OS_BIT_MASK(nr);\<close>
  \<^verbatim>\<open>unsigned long *p = ((unsigned long *)addr) + CAM_OS_BIT_WORD(nr);\<close>
  \<^verbatim>\<open>unsigned long old = *p; *p = old | mask; return (old & mask) != 0;\<close>
  The result is the returned \<^verbatim>\<open>s32\<close> and the array after the store.
\<close>

definition CAM_OS_TEST_AND_SET_BIT :: "s32 \<Rightarrow> 'a::len word list \<Rightarrow> (s32 \<times> 'a word list) option" where
  "CAM_OS_TEST_AND_SET_BIT nr addr =
     Option.bind (CAM_OS_BIT_MASK nr) (\<lambda>mask.
     Option.bind (CAM_OS_BIT_WORD TYPE('a) nr) (\<lambda>p.
     Option.bind (word_at addr p) (\<lambda>old.
       Some (if old AND mask \<noteq> 0 then 1 else 0, addr[nat (sint p) := old OR mask]))))"

text \<open>The same with \<^verbatim>\<open>*p = old & ~mask;\<close>\<close>

definition CAM_OS_TEST_AND_CLEAR_BIT :: "s32 \<Rightarrow> 'a::len word list \<Rightarrow> (s32 \<times> 'a word list) option" where
  "CAM_OS_TEST_AND_CLEAR_BIT nr addr =
     Option.bind (CAM_OS_BIT_MASK nr) (\<lambda>mask.
     Option.bind (CAM_OS_BIT_WORD TYPE('a) nr) (\<lambda>p.
     Option.bind (word_at addr p) (\<lambda>old.
       Some (if old AND mask \<noteq> 0 then 1 else 0, addr[nat (sint p) := old AND NOT mask]))))"

text \<open>
  \<^verbatim>\<open>return 1UL & (addr[CAM_OS_BIT_WORD(nr)] >> (nr & (CAM_OS_BITS_PER_LONG-1)));\<close>
  The count \<^verbatim>\<open>nr & (CAM_OS_BITS_PER_LONG-1)\<close> is the bitwise \<open>AND\<close> of the two's complement
  \<^verbatim>\<open>int\<close>s, which lies between 0 and \<^verbatim>\<open>CAM_OS_BITS_PER_LONG-1\<close> also for a negative \<open>nr\<close>;
  the \<^verbatim>\<open>unsigned long\<close> result, 0 or 1, is returned as an \<^verbatim>\<open>s32\<close>.
\<close>

definition CAM_OS_TEST_BIT :: "s32 \<Rightarrow> 'a::len word list \<Rightarrow> s32 option" where
  "CAM_OS_TEST_BIT nr addr =
     Option.bind (CAM_OS_BIT_WORD TYPE('a) nr) (\<lambda>p.
     Option.bind (word_at addr p) (\<lambda>w.
     Option.bind (shift_right_s32 w (nr AND (CAM_OS_BITS_PER_LONG TYPE('a) - 1))) (\<lambda>v.
       Some (ucast (1 AND v)))))"

text \<open>
  Specification: bit \<open>n\<close> of a bitmap is bit \<open>n mod w\<close> of its word \<open>n div w\<close>, for words
  of \<open>w\<close> bits.
\<close>

definition bitmap_bit :: "'a::len word list \<Rightarrow> nat \<Rightarrow> bool" where
  "bitmap_bit addr n \<longleftrightarrow> bit (addr ! (n div LENGTH('a))) (n mod LENGTH('a))"


section \<open>\<^verbatim>\<open>cam_os_util_ioctl.h\<close>: ioctl numbers\<close>

text \<open>
  The macros work on whatever unsigned integer type their operands have: \<^verbatim>\<open>unsigned int\<close>
  for the direction constants \<^verbatim>\<open>0U\<close>, \<^verbatim>\<open>1U\<close>, \<^verbatim>\<open>2U\<close>, \<^verbatim>\<open>size_t\<close> for a \<^verbatim>\<open>sizeof\<close>. They are
  modelled on words of any width \<open>'a\<close>; the four fields fit a width of at least 32 bits.
\<close>

definition CAM_OS_IOC_NRBITS :: nat where "CAM_OS_IOC_NRBITS = 8"
definition CAM_OS_IOC_TYPEBITS :: nat where "CAM_OS_IOC_TYPEBITS = 8"
definition CAM_OS_IOC_SIZEBITS :: nat where "CAM_OS_IOC_SIZEBITS = 14"
definition CAM_OS_IOC_DIRBITS :: nat where "CAM_OS_IOC_DIRBITS = 2"

text \<open>\<^verbatim>\<open>#define CAM_OS_IOC_NRMASK ((1 << CAM_OS_IOC_NRBITS)-1)\<close> and its three siblings.\<close>

definition CAM_OS_IOC_NRMASK :: "'a::len word" where
  "CAM_OS_IOC_NRMASK = push_bit CAM_OS_IOC_NRBITS 1 - 1"
definition CAM_OS_IOC_TYPEMASK :: "'a::len word" where
  "CAM_OS_IOC_TYPEMASK = push_bit CAM_OS_IOC_TYPEBITS 1 - 1"
definition CAM_OS_IOC_SIZEMASK :: "'a::len word" where
  "CAM_OS_IOC_SIZEMASK = push_bit CAM_OS_IOC_SIZEBITS 1 - 1"
definition CAM_OS_IOC_DIRMASK :: "'a::len word" where
  "CAM_OS_IOC_DIRMASK = push_bit CAM_OS_IOC_DIRBITS 1 - 1"

definition CAM_OS_IOC_NRSHIFT :: nat where "CAM_OS_IOC_NRSHIFT = 0"
definition CAM_OS_IOC_TYPESHIFT :: nat where
  "CAM_OS_IOC_TYPESHIFT = CAM_OS_IOC_NRSHIFT + CAM_OS_IOC_NRBITS"
definition CAM_OS_IOC_SIZESHIFT :: nat where
  "CAM_OS_IOC_SIZESHIFT = CAM_OS_IOC_TYPESHIFT + CAM_OS_IOC_TYPEBITS"
definition CAM_OS_IOC_DIRSHIFT :: nat where
  "CAM_OS_IOC_DIRSHIFT = CAM_OS_IOC_SIZESHIFT + CAM_OS_IOC_SIZEBITS"

text \<open>
  \<^verbatim>\<open>#define CAM_OS_IOC(dir,type,nr,size)\<close>
  \<^verbatim>\<open>(((dir) << CAM_OS_IOC_DIRSHIFT) | ((type) << CAM_OS_IOC_TYPESHIFT) |\<close>
  \<^verbatim>\<open> ((nr) << CAM_OS_IOC_NRSHIFT) | ((size) << CAM_OS_IOC_SIZESHIFT))\<close>
  (the macro's parameter \<^verbatim>\<open>size\<close> is \<open>sz\<close> here).
\<close>

definition CAM_OS_IOC :: "'a::len word \<Rightarrow> 'a word \<Rightarrow> 'a word \<Rightarrow> 'a word \<Rightarrow> 'a word" where
  "CAM_OS_IOC dir type nr sz =
     push_bit CAM_OS_IOC_DIRSHIFT dir OR
     push_bit CAM_OS_IOC_TYPESHIFT type OR
     push_bit CAM_OS_IOC_NRSHIFT nr OR
     push_bit CAM_OS_IOC_SIZESHIFT sz"

text \<open>\<^verbatim>\<open>#define CAM_OS_IOC_DIR(nr) (((nr) >> CAM_OS_IOC_DIRSHIFT) & CAM_OS_IOC_DIRMASK)\<close> and its siblings.\<close>

definition CAM_OS_IOC_DIR :: "'a::len word \<Rightarrow> 'a word" where
  "CAM_OS_IOC_DIR nr = drop_bit CAM_OS_IOC_DIRSHIFT nr AND CAM_OS_IOC_DIRMASK"
definition CAM_OS_IOC_TYPE :: "'a::len word \<Rightarrow> 'a word" where
  "CAM_OS_IOC_TYPE nr = drop_bit CAM_OS_IOC_TYPESHIFT nr AND CAM_OS_IOC_TYPEMASK"
definition CAM_OS_IOC_NR :: "'a::len word \<Rightarrow> 'a word" where
  "CAM_OS_IOC_NR nr = drop_bit CAM_OS_IOC_NRSHIFT nr AND CAM_OS_IOC_NRMASK"
definition CAM_OS_IOC_SIZE :: "'a::len word \<Rightarrow> 'a word" where
  "CAM_OS_IOC_SIZE nr = drop_bit CAM_OS_IOC_SIZESHIFT nr AND CAM_OS_IOC_SIZEMASK"

section \<open>\<^verbatim>\<open>cam_os_util_list.h\<close>: hashing\<close>

text \<open>
  In C a shift by a count that is negative or not less than the width of the promoted
  left operand is undefined. The hash functions shift by \<^verbatim>\<open>32 - bits\<close> and \<^verbatim>\<open>64 - bits\<close>
  for a caller's \<^verbatim>\<open>bits\<close>, so their right shift is checked: \<open>None\<close> is the undefined shift.
  The count is a \<^verbatim>\<open>u32\<close> (\<^verbatim>\<open>32 - bits\<close> is computed in \<^verbatim>\<open>unsigned int\<close> and wraps).
\<close>

definition shift_right :: "'a::len word \<Rightarrow> u32 \<Rightarrow> 'a word option" where
  "shift_right x n = (if unat n < LENGTH('a) then Some (drop_bit (unat n) x) else None)"

definition CAM_OS_GOLDEN_RATIO_PRIME_32 :: u32 where
  "CAM_OS_GOLDEN_RATIO_PRIME_32 = 0x9e370001"

definition CAM_OS_GOLDEN_RATIO_PRIME_64 :: u64 where
  "CAM_OS_GOLDEN_RATIO_PRIME_64 = 0x9e37fffffffc0001"

text \<open>
  Under \<^verbatim>\<open>CAM_OS_BITS_PER_LONG == 32\<close>:
  \<^verbatim>\<open>u32 hash = val * CAM_OS_GOLDEN_RATIO_PRIME_32; return hash >> (32 - bits);\<close>
\<close>

definition CAM_OS_HASH_32 :: "u32 \<Rightarrow> u32 \<Rightarrow> u32 option" where
  "CAM_OS_HASH_32 val bits =
     (let hash = val * CAM_OS_GOLDEN_RATIO_PRIME_32
      in shift_right hash (32 - bits))"

text \<open>
  Under \<^verbatim>\<open>CAM_OS_BITS_PER_LONG == 64\<close>:
  \<^verbatim>\<open>u64 hash = val; hash = hash * CAM_OS_GOLDEN_RATIO_PRIME_64; return hash >> (64 - bits);\<close>
\<close>

definition CAM_OS_HASH_64 :: "u64 \<Rightarrow> u32 \<Rightarrow> u64 option" where
  "CAM_OS_HASH_64 val bits =
     (let hash = val;
          hash = hash * CAM_OS_GOLDEN_RATIO_PRIME_64
      in shift_right hash (64 - bits))"

text \<open>
  \<^verbatim>\<open>#define CAM_OS_HASH_MIN(val, bits)\<close>
  \<^verbatim>\<open>(sizeof(val) <= 4 ? CAM_OS_HASH_32(val, bits) : CAM_OS_HASH_LONG(val, bits))\<close>
  in the configuration \<^verbatim>\<open>CAM_OS_BITS_PER_LONG == 32\<close>, where \<^verbatim>\<open>CAM_OS_HASH_LONG\<close> is
  \<^verbatim>\<open>CAM_OS_HASH_32\<close>. (Under \<^verbatim>\<open>CAM_OS_BITS_PER_LONG == 64\<close> the header defines no
  \<^verbatim>\<open>CAM_OS_HASH_32\<close>, and the macro names a function that does not exist.) The key is given
  by its value and its \<^verbatim>\<open>sizeof\<close>; passing it to the \<^verbatim>\<open>u32\<close> parameter reduces it modulo
  \<open>2\<^sup>3\<^sup>2\<close>.
\<close>

definition CAM_OS_HASH_MIN :: "nat \<Rightarrow> int \<Rightarrow> u32 \<Rightarrow> u32 option" where
  "CAM_OS_HASH_MIN sizeof_val val bits =
     (if sizeof_val \<le> 4 then CAM_OS_HASH_32 (word_of_int val) bits
      else CAM_OS_HASH_32 (word_of_int val) bits)"

text \<open>
  \<^verbatim>\<open>#define CAM_OS_HASH_BITS(name) CAM_OS_ILOG2(CAM_OS_HASH_SIZE(name))\<close> with
  \<^verbatim>\<open>CAM_OS_HASH_SIZE(name)\<close> = \<^verbatim>\<open>CAM_OS_ARRAY_SIZE(name)\<close> =
  \<^verbatim>\<open>sizeof(arr) / sizeof((arr)[0])\<close>: a constant expression of type \<^verbatim>\<open>size_t\<close> (4 bytes
  here), the number of buckets of the table.
\<close>

definition CAM_OS_HASH_BITS :: "nat \<Rightarrow> s32" where
  "CAM_OS_HASH_BITS array_size = CAM_OS_ILOG2 Long32 True 4 (int array_size)"

text \<open>
  The index expression of \<^verbatim>\<open>CAM_OS_HASH_ADD(hashtable, node, key)\<close>:
  \<^verbatim>\<open>&hashtable[CAM_OS_HASH_MIN(key, CAM_OS_HASH_BITS(hashtable))]\<close>, for a table of
  \<open>array_size\<close> buckets.
\<close>

definition CAM_OS_HASH_ADD_index :: "nat \<Rightarrow> nat \<Rightarrow> int \<Rightarrow> u32 option" where
  "CAM_OS_HASH_ADD_index array_size sizeof_key key =
     CAM_OS_HASH_MIN sizeof_key key (CAM_OS_HASH_BITS array_size)"

section \<open>\<^verbatim>\<open>cam_os_util_list.h\<close>: hash lists\<close>

text \<open>
  Pointers are addresses; \<^verbatim>\<open>NULL\<close> is 0. Every address holds an object of the type it is
  used at, so that a list operation is a function on the memory; what a theorem needs of
  the addresses (that a node is not at a poison address, say) is its hypothesis.
\<close>

type_synonym ptr = nat

definition NULL :: ptr where "NULL = 0"

text \<open>
  \<^verbatim>\<open>struct CamOsHListNode_t **ppPrev\<close> points at a pointer field: \<^verbatim>\<open>&h->pFirst\<close> of a head,
  \<^verbatim>\<open>&n->pNext\<close> of a node, or nowhere (\<^verbatim>\<open>NULL\<close>).
\<close>

datatype pptr = PNull | FirstOf ptr | NextOf ptr

record CamOsHListHead_t =
  pFirst :: ptr

record CamOsHListNode_t =
  pNext :: ptr
  ppPrev :: pptr

text \<open>The memory of the hash lists: the heads and the nodes, by address.\<close>

record hmem =
  heads :: "ptr \<Rightarrow> CamOsHListHead_t"
  nodes :: "ptr \<Rightarrow> CamOsHListNode_t"

text \<open>
  \<^verbatim>\<open>CAM_OS_WRITE_ONCE(*ppPrev, pNext)\<close>: a store of pointer size through \<^verbatim>\<open>ppPrev\<close>. A store
  through \<^verbatim>\<open>NULL\<close> is undefined: \<open>None\<close>.
\<close>

fun CAM_OS_WRITE_ONCE :: "pptr \<Rightarrow> ptr \<Rightarrow> hmem \<Rightarrow> hmem option" where
  "CAM_OS_WRITE_ONCE PNull val m = None"
| "CAM_OS_WRITE_ONCE (FirstOf h) val m =
     Some (m\<lparr>heads := (heads m)(h := (heads m h)\<lparr>pFirst := val\<rparr>)\<rparr>)"
| "CAM_OS_WRITE_ONCE (NextOf n) val m =
     Some (m\<lparr>nodes := (nodes m)(n := (nodes m n)\<lparr>pNext := val\<rparr>)\<rparr>)"

text \<open>The stores \<^verbatim>\<open>n->ppPrev = pp\<close> and \<^verbatim>\<open>n->pNext = v\<close>.\<close>

definition set_ppPrev :: "ptr \<Rightarrow> pptr \<Rightarrow> hmem \<Rightarrow> hmem" where
  "set_ppPrev n pp m = m\<lparr>nodes := (nodes m)(n := (nodes m n)\<lparr>ppPrev := pp\<rparr>)\<rparr>"

definition set_node_pNext :: "ptr \<Rightarrow> ptr \<Rightarrow> hmem \<Rightarrow> hmem" where
  "set_node_pNext n v m = m\<lparr>nodes := (nodes m)(n := (nodes m n)\<lparr>pNext := v\<rparr>)\<rparr>"

text \<open>\<^verbatim>\<open>h->pNext = NULL; h->ppPrev = NULL;\<close>\<close>

definition CAM_OS_INIT_HLIST_NODE :: "ptr \<Rightarrow> hmem \<Rightarrow> hmem" where
  "CAM_OS_INIT_HLIST_NODE h m = set_ppPrev h PNull (set_node_pNext h NULL m)"

text \<open>\<^verbatim>\<open>return !h->ppPrev;\<close>\<close>

definition CAM_OS_HLIST_UNHASHED :: "ptr \<Rightarrow> hmem \<Rightarrow> bool" where
  "CAM_OS_HLIST_UNHASHED h m \<longleftrightarrow> ppPrev (nodes m h) = PNull"

text \<open>
  \<^verbatim>\<open>_CAM_OS_HLIST_DEL\<close>:
  \<^verbatim>\<open>pNext = n->pNext; ppPrev = n->ppPrev; CAM_OS_WRITE_ONCE(*ppPrev, pNext);\<close>
  \<^verbatim>\<open>if (pNext) pNext->ppPrev = ppPrev;\<close>
\<close>

definition u_CAM_OS_HLIST_DEL :: "ptr \<Rightarrow> hmem \<Rightarrow> hmem option" where
  "u_CAM_OS_HLIST_DEL n m =
     (let next = pNext (nodes m n);
          pprev = ppPrev (nodes m n)
      in case CAM_OS_WRITE_ONCE pprev next m of
           None \<Rightarrow> None
         | Some m1 \<Rightarrow> Some (if next \<noteq> NULL then set_ppPrev next pprev m1 else m1))"

text \<open>
  \<^verbatim>\<open>if (!CAM_OS_HLIST_UNHASHED(n)) { _CAM_OS_HLIST_DEL(n); CAM_OS_INIT_HLIST_NODE(n); }\<close>
\<close>

definition CAM_OS_HLIST_DEL_INIT :: "ptr \<Rightarrow> hmem \<Rightarrow> hmem option" where
  "CAM_OS_HLIST_DEL_INIT n m =
     (if \<not> CAM_OS_HLIST_UNHASHED n m
      then (case u_CAM_OS_HLIST_DEL n m of
              None \<Rightarrow> None
            | Some m1 \<Rightarrow> Some (CAM_OS_INIT_HLIST_NODE n m1))
      else Some m)"

text \<open>
  \<^verbatim>\<open>CAM_OS_HLIST_ADD_HEAD\<close>:
  \<^verbatim>\<open>pFirst = h->pFirst; n->pNext = pFirst; if (pFirst) pFirst->ppPrev = &n->pNext;\<close>
  \<^verbatim>\<open>h->pFirst = n; n->ppPrev = &h->pFirst;\<close>
\<close>

definition CAM_OS_HLIST_ADD_HEAD :: "ptr \<Rightarrow> ptr \<Rightarrow> hmem \<Rightarrow> hmem" where
  "CAM_OS_HLIST_ADD_HEAD n h m =
     (let first = pFirst (heads m h);
          m = set_node_pNext n first m;
          m = (if first \<noteq> NULL then set_ppPrev first (NextOf n) m else m);
          m = m\<lparr>heads := (heads m)(h := (heads m h)\<lparr>pFirst := n\<rparr>)\<rparr>
      in set_ppPrev n (FirstOf h) m)"

text \<open>A memory of zeroes: every head empty, every node unhashed.\<close>

definition hmem_zero :: hmem where
  "hmem_zero = \<lparr>heads = (\<lambda>_. \<lparr>pFirst = NULL\<rparr>), nodes = (\<lambda>_. \<lparr>pNext = NULL, ppPrev = PNull\<rparr>)\<rparr>"

section \<open>\<^verbatim>\<open>cam_os_util_list.h\<close>: circular doubly linked lists\<close>

text \<open>\<^verbatim>\<open>struct CamOsListHead_t { struct CamOsListHead_t *pNext, *pPrev; };\<close>\<close>

record CamOsListHead_t =
  pNext :: ptr
  pPrev :: ptr

text \<open>The memory of the lists: the \<^verbatim>\<open>CamOsListHead_t\<close> at each address.\<close>

type_synonym heap = "ptr \<Rightarrow> CamOsListHead_t"

text \<open>The stores \<^verbatim>\<open>p->pNext = v\<close> and \<^verbatim>\<open>p->pPrev = v\<close>.\<close>

definition set_pNext :: "ptr \<Rightarrow> ptr \<Rightarrow> heap \<Rightarrow> heap" where
  "set_pNext p v h = h(p := (h p)\<lparr>pNext := v\<rparr>)"

definition set_pPrev :: "ptr \<Rightarrow> ptr \<Rightarrow> heap \<Rightarrow> heap" where
  "set_pPrev p v h = h(p := (h p)\<lparr>pPrev := v\<rparr>)"

definition CAM_OS_POISON_POINTER_DELTA :: ptr where
  "CAM_OS_POISON_POINTER_DELTA = 0"

definition CAM_OS_LIST_POISON1 :: ptr where
  "CAM_OS_LIST_POISON1 = 0x00100100 + CAM_OS_POISON_POINTER_DELTA"

definition CAM_OS_LIST_POISON2 :: ptr where
  "CAM_OS_LIST_POISON2 = 0x00200200 + CAM_OS_POISON_POINTER_DELTA"

text \<open>\<^verbatim>\<open>pList->pNext = pList; pList->pPrev = pList;\<close>\<close>

definition CAM_OS_INIT_LIST_HEAD :: "ptr \<Rightarrow> heap \<Rightarrow> heap" where
  "CAM_OS_INIT_LIST_HEAD pList h = set_pPrev pList pList (set_pNext pList pList h)"

text \<open>
  \<^verbatim>\<open>_CAM_OS_LIST_ADD(pNew, pPrev, pNext)\<close>:
  \<^verbatim>\<open>pNext->pPrev = pNew; pNew->pNext = pNext; pNew->pPrev = pPrev; pPrev->pNext = pNew;\<close>
  (the parameters \<^verbatim>\<open>pPrev\<close> and \<^verbatim>\<open>pNext\<close> are \<open>prev\<close> and \<open>next\<close> here, the field names being
  taken). The four stores are applied in the source's order, the first innermost.
\<close>

definition u_CAM_OS_LIST_ADD :: "ptr \<Rightarrow> ptr \<Rightarrow> ptr \<Rightarrow> heap \<Rightarrow> heap" where
  "u_CAM_OS_LIST_ADD pNew prev next h =
     set_pNext prev pNew (set_pPrev pNew prev (set_pNext pNew next (set_pPrev next pNew h)))"

text \<open>\<^verbatim>\<open>_CAM_OS_LIST_ADD(pNew, head, head->pNext);\<close>\<close>

definition CAM_OS_LIST_ADD :: "ptr \<Rightarrow> ptr \<Rightarrow> heap \<Rightarrow> heap" where
  "CAM_OS_LIST_ADD pNew head h = u_CAM_OS_LIST_ADD pNew head (pNext (h head)) h"

text \<open>\<^verbatim>\<open>_CAM_OS_LIST_ADD(pNew, head->pPrev, head);\<close>\<close>

definition CAM_OS_LIST_ADD_TAIL :: "ptr \<Rightarrow> ptr \<Rightarrow> heap \<Rightarrow> heap" where
  "CAM_OS_LIST_ADD_TAIL pNew head h = u_CAM_OS_LIST_ADD pNew (pPrev (h head)) head h"

text \<open>\<^verbatim>\<open>_CAM_OS_LIST_DEL(pPrev, pNext)\<close>: \<^verbatim>\<open>pNext->pPrev = pPrev; pPrev->pNext = pNext;\<close>\<close>

definition u_CAM_OS_LIST_DEL :: "ptr \<Rightarrow> ptr \<Rightarrow> heap \<Rightarrow> heap" where
  "u_CAM_OS_LIST_DEL prev next h = set_pNext prev next (set_pPrev next prev h)"

text \<open>\<^verbatim>\<open>_CAM_OS_LIST_DEL(entry->pPrev, entry->pNext);\<close>\<close>

definition u_CAM_OS_LIST_DEL_ENTRY :: "ptr \<Rightarrow> heap \<Rightarrow> heap" where
  "u_CAM_OS_LIST_DEL_ENTRY entry h = u_CAM_OS_LIST_DEL (pPrev (h entry)) (pNext (h entry)) h"

text \<open>
  \<^verbatim>\<open>_CAM_OS_LIST_DEL(pEntry->pPrev, pEntry->pNext);\<close>
  \<^verbatim>\<open>pEntry->pNext = CAM_OS_LIST_POISON1; pEntry->pPrev = CAM_OS_LIST_POISON2;\<close>
\<close>

definition CAM_OS_LIST_DEL :: "ptr \<Rightarrow> heap \<Rightarrow> heap" where
  "CAM_OS_LIST_DEL pEntry h =
     set_pPrev pEntry CAM_OS_LIST_POISON2
       (set_pNext pEntry CAM_OS_LIST_POISON1
          (u_CAM_OS_LIST_DEL (pPrev (h pEntry)) (pNext (h pEntry)) h))"

text \<open>\<^verbatim>\<open>_CAM_OS_LIST_DEL_ENTRY(entry); CAM_OS_INIT_LIST_HEAD(entry);\<close>\<close>

definition CAM_OS_LIST_DEL_INIT :: "ptr \<Rightarrow> heap \<Rightarrow> heap" where
  "CAM_OS_LIST_DEL_INIT entry h = CAM_OS_INIT_LIST_HEAD entry (u_CAM_OS_LIST_DEL_ENTRY entry h)"

text \<open>\<^verbatim>\<open>return head->pNext == head;\<close>\<close>

definition CAM_OS_LIST_EMPTY :: "ptr \<Rightarrow> heap \<Rightarrow> bool" where
  "CAM_OS_LIST_EMPTY head h \<longleftrightarrow> pNext (h head) = head"

text \<open>A memory of zeroes, on which the examples build their lists.\<close>

definition heap_zero :: heap where
  "heap_zero = (\<lambda>_. \<lparr>pNext = 0, pPrev = 0\<rparr>)"

subsection \<open>Programs over lists\<close>

text \<open>
  A node is reachable from \<open>a\<close> when following \<^verbatim>\<open>pNext\<close> from \<open>a\<close> arrives at it, as
  \<^verbatim>\<open>CAM_OS_LIST_FOR_EACH\<close> walks; the ring of \<open>a\<close> is the set of these nodes. A node is on a
  list of the heads \<open>H\<close> when it is reachable from one of them.
\<close>

inductive reach :: "heap \<Rightarrow> ptr \<Rightarrow> ptr \<Rightarrow> bool" for h :: heap and a :: ptr where
  reach_self: "reach h a a"
| reach_next: "reach h a p \<Longrightarrow> reach h a (pNext (h p))"

definition ring :: "heap \<Rightarrow> ptr \<Rightarrow> ptr set" where
  "ring h a = {p. reach h a p}"

definition on_list :: "heap \<Rightarrow> ptr set \<Rightarrow> ptr \<Rightarrow> bool" where
  "on_list h H p \<longleftrightarrow> (\<exists>a\<in>H. reach h a p)"

text \<open>The heads are initialised one after the other by \<^verbatim>\<open>CAM_OS_INIT_LIST_HEAD\<close>.\<close>

definition init_heads :: "ptr list \<Rightarrow> heap \<Rightarrow> heap" where
  "init_heads hs h = fold CAM_OS_INIT_LIST_HEAD hs h"

text \<open>The calls of a program: \<^verbatim>\<open>CAM_OS_LIST_ADD(pNew, head)\<close>, \<^verbatim>\<open>CAM_OS_LIST_ADD_TAIL(pNew, head)\<close>
  and \<^verbatim>\<open>CAM_OS_LIST_DEL_INIT(entry)\<close>.\<close>

datatype list_op = Add ptr ptr | AddTail ptr ptr | DelInit ptr

fun exec_op :: "list_op \<Rightarrow> heap \<Rightarrow> heap" where
  "exec_op (Add pNew head) h = CAM_OS_LIST_ADD pNew head h"
| "exec_op (AddTail pNew head) h = CAM_OS_LIST_ADD_TAIL pNew head h"
| "exec_op (DelInit entry) h = CAM_OS_LIST_DEL_INIT entry h"

definition exec_ops :: "list_op list \<Rightarrow> heap \<Rightarrow> heap" where
  "exec_ops ops h = fold exec_op ops h"

text \<open>
  The discipline of the callers: an insertion takes a node that is on no list and puts
  it next to a node that is on one (the head, usually); a deletion takes a node, not a
  head, that is on a list.
\<close>

fun op_ok :: "heap \<Rightarrow> ptr set \<Rightarrow> list_op \<Rightarrow> bool" where
  "op_ok h H (Add pNew head) \<longleftrightarrow> \<not> on_list h H pNew \<and> on_list h H head"
| "op_ok h H (AddTail pNew head) \<longleftrightarrow> \<not> on_list h H pNew \<and> on_list h H head"
| "op_ok h H (DelInit entry) \<longleftrightarrow> on_list h H entry \<and> entry \<notin> H"

fun ops_ok :: "heap \<Rightarrow> ptr set \<Rightarrow> list_op list \<Rightarrow> bool" where
  "ops_ok h H [] \<longleftrightarrow> True"
| "ops_ok h H (x # xs) \<longleftrightarrow> op_ok h H x \<and> ops_ok (exec_op x h) H xs"

text \<open>
  The invariant of circular doubly linked lists, on the nodes on a list of the heads
  \<open>H\<close>: the neighbours of a node point back at it, and its predecessor is on a list too
  (its successor is, by reachability).
\<close>

definition lists_ok :: "heap \<Rightarrow> ptr set \<Rightarrow> bool" where
  "lists_ok h H \<longleftrightarrow>
     (\<forall>p. on_list h H p \<longrightarrow>
        on_list h H (pPrev (h p)) \<and>
        pPrev (h (pNext (h p))) = p \<and> pNext (h (pPrev (h p))) = p)"

section \<open>Word lemmas\<close>

lemma and_not_mask_zero_iff:
  fixes x :: "'a::len word"
  shows "x AND NOT (mask n) = 0 \<longleftrightarrow> unat x < 2 ^ n"
proof -
  have "x AND NOT (mask n) = 0 \<longleftrightarrow> take_bit n x = x"
    by (auto simp add: bit_eq_iff bit_simps)
  also have "\<dots> \<longleftrightarrow> take_bit n (unat x) = unat x"
    by (metis unsigned_take_bit_eq word_unat_eq_iff)
  also have "\<dots> \<longleftrightarrow> unat x < 2 ^ n"
    by (rule take_bit_nat_eq_self_iff)
  finally show ?thesis .
qed

lemma bit_top_unat_ge:
  fixes x :: "'a::len word"
  assumes "bit x n"
  shows "2 ^ n \<le> unat x"
proof (rule ccontr)
  assume "\<not> 2 ^ n \<le> unat x"
  then have "x AND NOT (mask n) = 0"
    by (simp add: and_not_mask_zero_iff)
  then have "\<not> bit (x AND NOT (mask n)) n"
    by simp
  with assms show False
    by (simp add: bit_simps bit_imp_le_length)
qed

lemma unat_less_bitD:
  fixes x :: "'a::len word"
  assumes "unat x < 2 ^ n" "bit x i"
  shows "i < n"
proof (rule ccontr)
  assume "\<not> i < n"
  then have "2 ^ n \<le> (2::nat) ^ i" by simp
  also have "\<dots> \<le> unat x"
    using assms(2) by (rule bit_top_unat_ge)
  finally show False using assms(1) by simp
qed

lemma unat_push_bit_small:
  fixes x :: "'a::len word"
  assumes "unat x * 2 ^ k < 2 ^ LENGTH('a)"
  shows "unat (push_bit k x) = unat x * 2 ^ k"
proof -
  have "unat (push_bit k x) = take_bit LENGTH('a) (push_bit k (unat x))"
    by (rule unsigned_push_bit_eq)
  also have "\<dots> = push_bit k (unat x)"
    using assms by (simp add: take_bit_nat_eq_self push_bit_eq_mult)
  also have "\<dots> = unat x * 2 ^ k"
    by (simp add: push_bit_eq_mult)
  finally show ?thesis .
qed

lemma floorlog_eqI:
  assumes "2 ^ (w - 1) \<le> a" "a < 2 ^ w"
  shows "floorlog 2 a = w"
proof -
  have "floorlog 2 a \<le> w"
    using assms(2) by (intro floorlog_leI) simp_all
  moreover have "w \<le> floorlog 2 a"
    using assms(1) by (intro floorlog_geI) simp_all
  ultimately show ?thesis by simp
qed

lemma floorlog_unat_le:
  fixes x :: "'a::len word"
  shows "floorlog 2 (unat x) \<le> LENGTH('a)"
  using unsigned_less [of x] by (intro floorlog_leI) simp_all

lemma floorlog_floor_log2:
  assumes "0 < a"
  shows "int (floorlog 2 a) = 1 + \<lfloor>log 2 (real a)\<rfloor>"
proof -
  have "0 \<le> log 2 (real a)"
    using assms by simp
  then have "0 \<le> \<lfloor>log 2 (real a)\<rfloor>"
    by simp
  with assms show ?thesis
    by (simp add: floorlog_def)
qed

section \<open>\<^verbatim>\<open>CAM_OS_FLS\<close> is the bit length\<close>

lemma fls_step_cases:
  fixes x :: "'a::len word" and r :: s32
  assumes m: "m = NOT (mask (LENGTH('a) - k))" and k: "0 < k" "2 * k \<le> LENGTH('a)" "k \<le> 32"
    and x: "2 ^ (LENGTH('a) - 2 * k) \<le> unat x"
    and r: "floorlog 2 (unat x) + unat r = c + LENGTH('a)"
  shows "2 ^ (LENGTH('a) - k) \<le> unat (if x AND m = 0 then push_bit k x else x) \<and>
         floorlog 2 (unat (if x AND m = 0 then push_bit k x else x)) +
           unat (if x AND m = 0 then r - of_nat k else r) = c + LENGTH('a)"
proof (cases "x AND m = 0")
  case True
  define L where "L = LENGTH('a)"
  have kL: "2 * k \<le> L" using k by (simp add: L_def)
  from True have lt: "unat x < 2 ^ (L - k)"
    by (simp add: m and_not_mask_zero_iff L_def)
  have pos: "0 < unat x"
  proof (rule ccontr)
    assume "\<not> 0 < unat x"
    then have "unat x = 0" by simp
    with x show False by simp
  qed
  have "unat x * 2 ^ k < 2 ^ (L - k) * 2 ^ k"
    using lt by simp
  also have "\<dots> = (2::nat) ^ (L - k + k)"
    by (simp only: power_add)
  also have "L - k + k = L"
    using kL by simp
  finally have small: "unat x * 2 ^ k < 2 ^ LENGTH('a)"
    by (simp add: L_def)
  have ux': "unat (push_bit k x) = unat x * 2 ^ k"
    by (rule unat_push_bit_small [OF small])
  have "(2::nat) ^ (L - k) = 2 ^ (L - 2 * k + k)"
    using kL by simp
  also have "\<dots> = 2 ^ (L - 2 * k) * 2 ^ k"
    by (simp only: power_add)
  also have "\<dots> \<le> unat x * 2 ^ k"
    using x by (simp add: L_def)
  finally have lower: "2 ^ (L - k) \<le> unat (push_bit k x)"
    by (simp only: ux')
  have fl: "floorlog 2 (unat (push_bit k x)) = floorlog 2 (unat x) + k"
    using pos by (simp only: ux' floorlog_power)
  have flx: "floorlog 2 (unat x) \<le> L - k"
    using lt by (intro floorlog_leI) simp_all
  have kr: "k \<le> unat r"
    using r flx kL by (simp add: L_def)
  have "unat (of_nat k :: s32) = k"
    using k by (simp add: unat_of_nat)
  then have ur': "unat (r - of_nat k) = unat r - k"
    using kr by (simp add: unat_sub word_le_nat_alt)
  have "floorlog 2 (unat (push_bit k x)) + unat (r - of_nat k) = c + L"
    using fl ur' kr r by (simp add: L_def)
  with lower True show ?thesis
    by (simp add: L_def)
next
  case False
  then have "\<not> unat x < 2 ^ (LENGTH('a) - k)"
    by (simp add: m and_not_mask_zero_iff)
  with False r show ?thesis
    by simp
qed

lemma fls_step_inv_pair:
  fixes s :: "'a::len word \<times> s32"
  assumes "m = NOT (mask (LENGTH('a) - k))" "0 < k" "2 * k \<le> LENGTH('a)" "k \<le> 32"
    and "2 ^ (LENGTH('a) - 2 * k) \<le> unat (fst s)"
    and "floorlog 2 (unat (fst s)) + unat (snd s) = c + LENGTH('a)"
  shows "2 ^ (LENGTH('a) - k) \<le> unat (fst (fls_step k m s)) \<and>
         floorlog 2 (unat (fst (fls_step k m s))) + unat (snd (fls_step k m s)) = c + LENGTH('a)"
proof -
  have "fst (fls_step k m s) = (if fst s AND m = 0 then push_bit k (fst s) else fst s)"
    "snd (fls_step k m s) = (if fst s AND m = 0 then snd s - of_nat k else snd s)"
    by (simp_all add: fls_step_def split_beta)
  then show ?thesis
    using fls_step_cases [OF assms] by simp
qed

lemma fls_step_inv32:
  fixes s :: "u32 \<times> s32"
  assumes "m = NOT (mask (32 - k))" "0 < k" "2 * k \<le> 32"
    and "2 ^ (32 - 2 * k) \<le> unat (fst s)"
    and "floorlog 2 (unat (fst s)) + unat (snd s) = c + 32"
  shows "2 ^ (32 - k) \<le> unat (fst (fls_step k m s)) \<and>
         floorlog 2 (unat (fst (fls_step k m s))) + unat (snd (fls_step k m s)) = c + 32"
  using fls_step_inv_pair [of m k s c] assms by simp

lemma fls_step_inv64:
  fixes s :: "u64 \<times> s32"
  assumes "m = NOT (mask (64 - k))" "0 < k" "k \<le> 32"
    and "2 ^ (64 - 2 * k) \<le> unat (fst s)"
    and "floorlog 2 (unat (fst s)) + unat (snd s) = c + 64"
  shows "2 ^ (64 - k) \<le> unat (fst (fls_step k m s)) \<and>
         floorlog 2 (unat (fst (fls_step k m s))) + unat (snd (fls_step k m s)) = c + 64"
  using fls_step_inv_pair [of m k s c] assms by simp

lemma push_bit_not_zero: "push_bit n (NOT 0) = (NOT (mask n) :: 'a::len word)"
  by (rule bit_word_eqI) (auto simp add: bit_simps)

lemma CAM_OS_FLS_floorlog: "unat (CAM_OS_FLS x) = floorlog 2 (unat x)"
proof (cases "x = 0")
  case True
  then show ?thesis by (simp add: CAM_OS_FLS_def floorlog_eq_zero_iff)
next
  case False
  define c where "c = floorlog 2 (unat x)"
  define s0 :: "u32 \<times> s32" where "s0 = (x, 32)"
  define s1 where "s1 = fls_step 16 0xffff0000 s0"
  define s2 where "s2 = fls_step 8 0xff000000 s1"
  define s3 where "s3 = fls_step 4 0xf0000000 s2"
  define s4 where "s4 = fls_step 2 0xc0000000 s3"
  define s5 where "s5 = fls_step 1 0x80000000 s4"
  have "unat x \<noteq> 0" using False by (simp add: unat_eq_0)
  then have i0: "2 ^ (32 - 2 * 16) \<le> unat (fst s0)"
    "floorlog 2 (unat (fst s0)) + unat (snd s0) = c + 32"
    by (simp_all add: s0_def c_def)
  have i1: "2 ^ (32 - 16) \<le> unat (fst s1) \<and> floorlog 2 (unat (fst s1)) + unat (snd s1) = c + 32"
    unfolding s1_def by (rule fls_step_inv32 [OF _ _ _ i0]) (simp_all add: mask_eq_exp_minus_1)
  have i2: "2 ^ (32 - 8) \<le> unat (fst s2) \<and> floorlog 2 (unat (fst s2)) + unat (snd s2) = c + 32"
    unfolding s2_def using i1 by (intro fls_step_inv32) (simp_all add: mask_eq_exp_minus_1)
  have i3: "2 ^ (32 - 4) \<le> unat (fst s3) \<and> floorlog 2 (unat (fst s3)) + unat (snd s3) = c + 32"
    unfolding s3_def using i2 by (intro fls_step_inv32) (simp_all add: mask_eq_exp_minus_1)
  have i4: "2 ^ (32 - 2) \<le> unat (fst s4) \<and> floorlog 2 (unat (fst s4)) + unat (snd s4) = c + 32"
    unfolding s4_def using i3 by (intro fls_step_inv32) (simp_all add: mask_eq_exp_minus_1)
  have i5: "2 ^ (32 - 1) \<le> unat (fst s5) \<and> floorlog 2 (unat (fst s5)) + unat (snd s5) = c + 32"
    unfolding s5_def using i4 by (intro fls_step_inv32) (simp_all add: mask_eq_exp_minus_1)
  have "unat (fst s5) < 2 ^ 32"
    using unsigned_less [of "fst s5"] by simp
  with i5 have "floorlog 2 (unat (fst s5)) = 32"
    by (intro floorlog_eqI) simp_all
  with i5 have "unat (snd s5) = c" by simp
  moreover have "CAM_OS_FLS x = snd s5"
    using False by (simp add: CAM_OS_FLS_def Let_def s5_def s4_def s3_def s2_def s1_def s0_def)
  ultimately show ?thesis by (simp add: c_def)
qed

lemma CAM_OS_FLS_le: "unat (CAM_OS_FLS x) \<le> 32"
  using floorlog_unat_le [of x] by (simp add: CAM_OS_FLS_floorlog)

lemma sint_small:
  fixes r :: s32
  assumes "unat r \<le> 64"
  shows "sint r = int (unat r)"
proof -
  have "uint r \<le> 64"
    using assms unfolding uint_nat by linarith
  moreover have "0 \<le> uint r"
    by (rule uint_ge_0)
  moreover have "\<And>i :: int. 0 \<le> i \<Longrightarrow> i \<le> 64 \<Longrightarrow> - (2 ^ 31) \<le> i \<and> i < 2 ^ 31"
    by simp
  ultimately have bounds: "- (2 ^ 31) \<le> uint r" "uint r < 2 ^ 31"
    by blast+
  have "sint r = signed_take_bit (LENGTH(32) - Suc 0) (uint r)"
    by (rule sint_uint)
  also have "\<dots> = signed_take_bit 31 (uint r)"
    by simp
  also have "\<dots> = uint r"
    using bounds by (rule signed_take_bit_int_eq_self)
  finally show ?thesis
    by (simp only: uint_nat)
qed

text \<open>
  C1. For every \<^verbatim>\<open>s32\<close> input \<open>x\<close>, \<^verbatim>\<open>CAM_OS_FLS(x)\<close> is 0 when \<open>x = 0\<close> and otherwise
  \<open>1 + \<lfloor>log\<^sub>2 x\<rfloor>\<close> with \<open>x\<close> read as an unsigned 32-bit value, the 1-based position
  of its most significant set bit; it is 32 whenever the sign bit of \<open>x\<close> is set.
\<close>

theorem CAM_OS_FLS_msb_position:
  "sint (CAM_OS_FLS x) = (if x = 0 then 0 else 1 + \<lfloor>log 2 (real (unat x))\<rfloor>)
   \<and> (bit x 31 \<longrightarrow> CAM_OS_FLS x = 32)"
proof
  show "sint (CAM_OS_FLS x) = (if x = 0 then 0 else 1 + \<lfloor>log 2 (real (unat x))\<rfloor>)"
  proof (cases "x = 0")
    case True
    then show ?thesis by (simp add: CAM_OS_FLS_def)
  next
    case False
    then have "0 < unat x"
      by (simp add: unat_gt_0)
    then have "int (floorlog 2 (unat x)) = 1 + \<lfloor>log 2 (real (unat x))\<rfloor>"
      by (rule floorlog_floor_log2)
    moreover have "sint (CAM_OS_FLS x) = int (unat (CAM_OS_FLS x))"
      using CAM_OS_FLS_le [of x] by (intro sint_small) simp
    ultimately show ?thesis
      using False by (simp add: CAM_OS_FLS_floorlog)
  qed
  show "bit x 31 \<longrightarrow> CAM_OS_FLS x = 32"
  proof
    assume "bit x 31"
    then have "2 ^ 31 \<le> unat x"
      by (rule bit_top_unat_ge)
    then have "floorlog 2 (unat x) = 32"
      using unsigned_less [of x] by (intro floorlog_eqI) simp_all
    then have "unat (CAM_OS_FLS x) = unat (32 :: s32)"
      by (simp add: CAM_OS_FLS_floorlog)
    then show "CAM_OS_FLS x = 32"
      by (simp only: word_unat_eq_iff)
  qed
qed

theorem CAM_OS_FLS_msb_position_witness:
  "bit (0x80000000 :: s32) 31 \<and> CAM_OS_FLS 0x80000000 = 32"
  using CAM_OS_FLS_msb_position [of "0x80000000"] by simp

section \<open>\<^verbatim>\<open>CAM_OS_FLS64\<close> and \<^verbatim>\<open>CAM_OS_ILOG2\<close>\<close>

lemma find_rev_upt_top:
  assumes "k < m" "P k" "\<And>j. k < j \<Longrightarrow> j < m \<Longrightarrow> \<not> P j"
  shows "find P (rev [0..<m]) = Some k"
  using assms
proof (induction m)
  case 0
  then show ?case by simp
next
  case (Suc m)
  show ?case
  proof (cases "k = m")
    case True
    with Suc.prems(2) show ?thesis by simp
  next
    case False
    with Suc.prems(1) have km: "k < m" by simp
    then have "\<not> P m" using Suc.prems(3) by simp
    moreover have "find P (rev [0..<m]) = Some k"
      using km Suc.prems(2,3) by (intro Suc.IH) simp_all
    ultimately show ?thesis by simp
  qed
qed

lemma u_CAM_OS_FLS_floorlog:
  assumes "x \<noteq> 0"
  shows "unat (u_CAM_OS_FLS x) + 1 = floorlog 2 (unat x)"
proof -
  define c where "c = floorlog 2 (unat x) - 1"
  define s0 :: "u64 \<times> s32" where "s0 = (x, 64 - 1)"
  define s1 where "s1 = fls_step 32 (push_bit 32 (NOT 0)) s0"
  define s2 where "s2 = fls_step 16 (push_bit (64 - 16) (NOT 0)) s1"
  define s3 where "s3 = fls_step 8 (push_bit (64 - 8) (NOT 0)) s2"
  define s4 where "s4 = fls_step 4 (push_bit (64 - 4) (NOT 0)) s3"
  define s5 where "s5 = fls_step 2 (push_bit (64 - 2) (NOT 0)) s4"
  define s6 where "s6 = fls_step 1 (push_bit (64 - 1) (NOT 0)) s5"
  have pos: "0 < unat x" using assms by (simp add: unat_gt_0)
  then have cpos: "0 < floorlog 2 (unat x)"
    by (simp add: floorlog_def)
  have i0: "2 ^ (64 - 2 * 32) \<le> unat (fst s0)"
    "floorlog 2 (unat (fst s0)) + unat (snd s0) = c + 64"
    using pos cpos by (simp_all add: s0_def c_def)
  have i1: "2 ^ (64 - 32) \<le> unat (fst s1) \<and> floorlog 2 (unat (fst s1)) + unat (snd s1) = c + 64"
    unfolding s1_def by (rule fls_step_inv64 [OF _ _ _ i0]) (simp_all add: push_bit_not_zero)
  have i2: "2 ^ (64 - 16) \<le> unat (fst s2) \<and> floorlog 2 (unat (fst s2)) + unat (snd s2) = c + 64"
    unfolding s2_def using i1 by (intro fls_step_inv64) (simp_all add: push_bit_not_zero)
  have i3: "2 ^ (64 - 8) \<le> unat (fst s3) \<and> floorlog 2 (unat (fst s3)) + unat (snd s3) = c + 64"
    unfolding s3_def using i2 by (intro fls_step_inv64) (simp_all add: push_bit_not_zero)
  have i4: "2 ^ (64 - 4) \<le> unat (fst s4) \<and> floorlog 2 (unat (fst s4)) + unat (snd s4) = c + 64"
    unfolding s4_def using i3 by (intro fls_step_inv64) (simp_all add: push_bit_not_zero)
  have i5: "2 ^ (64 - 2) \<le> unat (fst s5) \<and> floorlog 2 (unat (fst s5)) + unat (snd s5) = c + 64"
    unfolding s5_def using i4 by (intro fls_step_inv64) (simp_all add: push_bit_not_zero)
  have i6: "2 ^ (64 - 1) \<le> unat (fst s6) \<and> floorlog 2 (unat (fst s6)) + unat (snd s6) = c + 64"
    unfolding s6_def using i5 by (intro fls_step_inv64) (simp_all add: push_bit_not_zero)
  have "unat (fst s6) < 2 ^ 64"
    using unsigned_less [of "fst s6"] by simp
  with i6 have "floorlog 2 (unat (fst s6)) = 64"
    by (intro floorlog_eqI) simp_all
  with i6 have "unat (snd s6) = c" by simp
  moreover have "snd s6 = (if fst s5 AND push_bit (64 - 1) (NOT 0) = 0 then snd s5 - 1 else snd s5)"
    by (simp add: s6_def fls_step_def split_beta)
  then have "u_CAM_OS_FLS x = snd s6"
    by (simp add: u_CAM_OS_FLS_def Let_def s5_def s4_def s3_def s2_def s1_def s0_def)
  ultimately show ?thesis using cpos by (simp add: c_def)
qed

lemma unat_s32_add:
  fixes a b :: s32
  assumes "unat a + unat b \<le> 64"
  shows "unat (a + b) = unat a + unat b"
proof -
  have "unat a + unat b < 2 ^ LENGTH(32)"
    using assms by simp
  then show ?thesis
    by (simp only: unat_add_lem [THEN iffD1])
qed

lemma CAM_OS_FLS64_long64_floorlog: "unat (CAM_OS_FLS64_long64 x) = floorlog 2 (unat x)"
proof (cases "x = 0")
  case True
  then show ?thesis by (simp add: CAM_OS_FLS64_long64_def floorlog_eq_zero_iff)
next
  case False
  have eq: "unat (u_CAM_OS_FLS x) + 1 = floorlog 2 (unat x)"
    using False by (rule u_CAM_OS_FLS_floorlog)
  moreover have "floorlog 2 (unat x) \<le> 64"
    using floorlog_unat_le [of x] by simp
  ultimately have "unat (u_CAM_OS_FLS x) + unat (1 :: s32) \<le> 64"
    by simp
  then have "unat (u_CAM_OS_FLS x + 1) = unat (u_CAM_OS_FLS x) + unat (1 :: s32)"
    by (rule unat_s32_add)
  with eq False show ?thesis
    by (simp add: CAM_OS_FLS64_long64_def)
qed

lemma floorlog_div_pow:
  assumes "0 < a div 2 ^ k"
  shows "floorlog 2 a = floorlog 2 (a div 2 ^ k) + k"
proof -
  have "floorlog 2 (a div 2 ^ k * 2 ^ k + a mod 2 ^ k) = floorlog 2 (a div 2 ^ k * 2 ^ k)"
  proof (rule floorlog_eqI)
    define w where "w = floorlog 2 (a div 2 ^ k * 2 ^ k)"
    have b: "2 ^ (w - 1) \<le> a div 2 ^ k * 2 ^ k \<and> a div 2 ^ k * 2 ^ k < 2 ^ w"
      unfolding w_def using assms by (intro floorlog_bounds) simp_all
    then show "2 ^ (w - 1) \<le> a div 2 ^ k * 2 ^ k + a mod 2 ^ k" by simp
    have kw: "k \<le> w"
      using assms by (simp add: w_def)
    have "a div 2 ^ k < 2 ^ (w - k)"
      using b kw by (metis le_add_diff_inverse2 mult_less_cancel2 power_add)
    then have "a div 2 ^ k + 1 \<le> 2 ^ (w - k)" by simp
    then have "(a div 2 ^ k + 1) * 2 ^ k \<le> 2 ^ (w - k) * 2 ^ k"
      by (rule mult_le_mono1)
    also have "\<dots> = 2 ^ w"
      using kw by (simp flip: power_add)
    finally have "a div 2 ^ k * 2 ^ k + 2 ^ k \<le> 2 ^ w"
      by (simp add: algebra_simps)
    moreover have "a mod 2 ^ k < 2 ^ k" by simp
    ultimately show "a div 2 ^ k * 2 ^ k + a mod 2 ^ k < 2 ^ w"
      by linarith
  qed
  moreover have "a div 2 ^ k * 2 ^ k + a mod 2 ^ k = a"
    by (rule div_mult_mod_eq)
  moreover have "floorlog 2 (a div 2 ^ k * 2 ^ k) = floorlog 2 (a div 2 ^ k) + k"
    using assms by simp
  ultimately show ?thesis
    by (simp only:)
qed

lemma CAM_OS_FLS64_long32_floorlog: "unat (CAM_OS_FLS64_long32 x) = floorlog 2 (unat x)"
proof -
  define h :: u32 where "h = ucast (drop_bit 32 x)"
  have uh: "unat h = unat x div 2 ^ 32"
  proof -
    have "unat (drop_bit 32 x) = drop_bit 32 (unat x)"
      by (rule unat_drop_bit_eq)
    also have "\<dots> = unat x div 2 ^ 32"
      by (rule drop_bit_eq_div)
    finally have "unat (drop_bit 32 x) = unat x div 2 ^ 32" .
    moreover have "unat x < 2 ^ 64"
      using unsigned_less [of x] by simp
    then have "unat x div 2 ^ 32 < 2 ^ 32"
      by simp
    ultimately show ?thesis
      by (simp add: h_def unsigned_ucast_eq take_bit_nat_eq_self)
  qed
  show ?thesis
  proof (cases "h = 0")
    case True
    then have "unat x div 2 ^ 32 = 0" using uh by simp
    then have "unat x < 2 ^ 32" by (simp add: div_eq_0_iff)
    then have "unat (ucast x :: u32) = unat x"
      by (simp add: unsigned_ucast_eq take_bit_nat_eq_self)
    with True show ?thesis
      by (simp add: CAM_OS_FLS64_long32_def CAM_OS_FLS_floorlog flip: h_def)
  next
    case False
    then have "0 < unat h"
      by (simp add: unat_gt_0)
    then have pos: "0 < unat x div 2 ^ 32"
      by (simp only: uh)
    have "unat (CAM_OS_FLS h) + unat (32 :: s32) \<le> 64"
      using CAM_OS_FLS_le [of h] by simp
    then have "unat (CAM_OS_FLS h + 32) = unat (CAM_OS_FLS h) + unat (32 :: s32)"
      by (rule unat_s32_add)
    then have "unat (CAM_OS_FLS h + 32) = floorlog 2 (unat x div 2 ^ 32) + 32"
      by (simp add: CAM_OS_FLS_floorlog uh)
    also have "\<dots> = floorlog 2 (unat x)"
      using floorlog_div_pow [OF pos] by simp
    finally show ?thesis
      using False by (simp add: CAM_OS_FLS64_long32_def flip: h_def)
  qed
qed

lemma CAM_OS_FLS64_floorlog: "unat (CAM_OS_FLS64 cfg x) = floorlog 2 (unat x)"
  by (cases cfg) (simp_all add: CAM_OS_FLS64_long32_floorlog CAM_OS_FLS64_long64_floorlog)


text \<open>
  The chain of \<^verbatim>\<open>CAM_OS_ILOG2\<close> written out, as the macro has it: \<open>ilog2_chain\<close> is the
  64-way conditional of the source.
\<close>

lemma rev_upt_64: "rev [0..<64] = [63, 62, 61, 60, 59, 58, 57, 56, 55, 54, 53, 52, 51, 50, 49, 48, 47, 46, 45, 44, 43, 42, 41, 40, 39, 38, 37, 36, 35, 34, 33, 32, 31, 30, 29, 28, 27, 26, 25, 24, 23, 22, 21, 20, 19, 18, 17, 16, 15, 14, 13, 12, 11, 10, 9, 8, 7, 6, 5, 4, 3, 2, 1, 0]"
  by code_simp

lemma case_find_Cons:
  "(case find P (k # ks) of Some j \<Rightarrow> f j | None \<Rightarrow> d) =
     (if P k then f k else (case find P ks of Some j \<Rightarrow> f j | None \<Rightarrow> d))"
  by simp

lemma ilog2_chain_unfolded:
  "ilog2_chain n =
     (
      if n AND push_bit 63 1 \<noteq> 0 then 63 else
      if n AND push_bit 62 1 \<noteq> 0 then 62 else
      if n AND push_bit 61 1 \<noteq> 0 then 61 else
      if n AND push_bit 60 1 \<noteq> 0 then 60 else
      if n AND push_bit 59 1 \<noteq> 0 then 59 else
      if n AND push_bit 58 1 \<noteq> 0 then 58 else
      if n AND push_bit 57 1 \<noteq> 0 then 57 else
      if n AND push_bit 56 1 \<noteq> 0 then 56 else
      if n AND push_bit 55 1 \<noteq> 0 then 55 else
      if n AND push_bit 54 1 \<noteq> 0 then 54 else
      if n AND push_bit 53 1 \<noteq> 0 then 53 else
      if n AND push_bit 52 1 \<noteq> 0 then 52 else
      if n AND push_bit 51 1 \<noteq> 0 then 51 else
      if n AND push_bit 50 1 \<noteq> 0 then 50 else
      if n AND push_bit 49 1 \<noteq> 0 then 49 else
      if n AND push_bit 48 1 \<noteq> 0 then 48 else
      if n AND push_bit 47 1 \<noteq> 0 then 47 else
      if n AND push_bit 46 1 \<noteq> 0 then 46 else
      if n AND push_bit 45 1 \<noteq> 0 then 45 else
      if n AND push_bit 44 1 \<noteq> 0 then 44 else
      if n AND push_bit 43 1 \<noteq> 0 then 43 else
      if n AND push_bit 42 1 \<noteq> 0 then 42 else
      if n AND push_bit 41 1 \<noteq> 0 then 41 else
      if n AND push_bit 40 1 \<noteq> 0 then 40 else
      if n AND push_bit 39 1 \<noteq> 0 then 39 else
      if n AND push_bit 38 1 \<noteq> 0 then 38 else
      if n AND push_bit 37 1 \<noteq> 0 then 37 else
      if n AND push_bit 36 1 \<noteq> 0 then 36 else
      if n AND push_bit 35 1 \<noteq> 0 then 35 else
      if n AND push_bit 34 1 \<noteq> 0 then 34 else
      if n AND push_bit 33 1 \<noteq> 0 then 33 else
      if n AND push_bit 32 1 \<noteq> 0 then 32 else
      if n AND push_bit 31 1 \<noteq> 0 then 31 else
      if n AND push_bit 30 1 \<noteq> 0 then 30 else
      if n AND push_bit 29 1 \<noteq> 0 then 29 else
      if n AND push_bit 28 1 \<noteq> 0 then 28 else
      if n AND push_bit 27 1 \<noteq> 0 then 27 else
      if n AND push_bit 26 1 \<noteq> 0 then 26 else
      if n AND push_bit 25 1 \<noteq> 0 then 25 else
      if n AND push_bit 24 1 \<noteq> 0 then 24 else
      if n AND push_bit 23 1 \<noteq> 0 then 23 else
      if n AND push_bit 22 1 \<noteq> 0 then 22 else
      if n AND push_bit 21 1 \<noteq> 0 then 21 else
      if n AND push_bit 20 1 \<noteq> 0 then 20 else
      if n AND push_bit 19 1 \<noteq> 0 then 19 else
      if n AND push_bit 18 1 \<noteq> 0 then 18 else
      if n AND push_bit 17 1 \<noteq> 0 then 17 else
      if n AND push_bit 16 1 \<noteq> 0 then 16 else
      if n AND push_bit 15 1 \<noteq> 0 then 15 else
      if n AND push_bit 14 1 \<noteq> 0 then 14 else
      if n AND push_bit 13 1 \<noteq> 0 then 13 else
      if n AND push_bit 12 1 \<noteq> 0 then 12 else
      if n AND push_bit 11 1 \<noteq> 0 then 11 else
      if n AND push_bit 10 1 \<noteq> 0 then 10 else
      if n AND push_bit 9 1 \<noteq> 0 then 9 else
      if n AND push_bit 8 1 \<noteq> 0 then 8 else
      if n AND push_bit 7 1 \<noteq> 0 then 7 else
      if n AND push_bit 6 1 \<noteq> 0 then 6 else
      if n AND push_bit 5 1 \<noteq> 0 then 5 else
      if n AND push_bit 4 1 \<noteq> 0 then 4 else
      if n AND push_bit 3 1 \<noteq> 0 then 3 else
      if n AND push_bit 2 1 \<noteq> 0 then 2 else
      if n AND push_bit 1 1 \<noteq> 0 then 1 else
      if n AND push_bit 0 1 \<noteq> 0 then 0 else
      0)"
  unfolding ilog2_chain_def rev_upt_64 case_find_Cons by simp

lemma ilog2_chain_floorlog:
  assumes "n \<noteq> 0"
  shows "unat (ilog2_chain n) + 1 = floorlog 2 (unat n)"
proof -
  define w where "w = floorlog 2 (unat n)"
  define k where "k = w - 1"
  have pos: "0 < unat n" using assms by (simp add: unat_gt_0)
  then have bounds: "2 ^ k \<le> unat n \<and> unat n < 2 ^ w"
    unfolding k_def w_def by (intro floorlog_bounds) simp_all
  have w: "0 < w" "w \<le> 64"
    using pos floorlog_unat_le [of n] by (simp_all add: w_def floorlog_def)
  then have k: "k < 64" "w = k + 1" by (simp_all add: k_def)
  have high: "\<not> bit n j" if "k < j" for j
    using unat_less_bitD [of n w j] bounds that k by auto
  have "bit n k"
  proof (rule ccontr)
    assume nk: "\<not> bit n k"
    have "n AND NOT (mask k) = 0"
    proof (rule bit_word_eqI)
      fix i
      have "\<not> (bit n i \<and> k \<le> i)"
        using nk high [of i] by (cases "i = k") auto
      then show "bit (n AND NOT (mask k)) i \<longleftrightarrow> bit (0 :: u64) i"
        by (auto simp add: bit_simps)
    qed
    then have "unat n < 2 ^ k"
      by (simp add: and_not_mask_zero_iff)
    with bounds show False by simp
  qed
  then have "find (bit n) (rev [0..<64]) = Some k"
    using k(1) high by (intro find_rev_upt_top) simp_all
  moreover have "(\<lambda>j. n AND push_bit j 1 \<noteq> 0) = bit n"
    by (rule ext) (rule bit_iff_and_push_bit_not_eq_0 [symmetric])
  ultimately have "find (\<lambda>j. n AND push_bit j 1 \<noteq> 0) (rev [0..<64]) = Some k"
    by (simp only:)
  then have "ilog2_chain n = of_nat k"
    by (simp add: ilog2_chain_def)
  moreover have "unat (of_nat k :: s32) = k"
    using k(1) by (simp add: unat_of_nat)
  ultimately show ?thesis
    using k(2) by (simp add: w_def)
qed

lemma unat_word_of_int_small:
  assumes "0 \<le> n" "n < 2 ^ LENGTH('a)"
  shows "unat (word_of_int n :: 'a::len word) = nat n"
proof -
  have "uint (word_of_int n :: 'a word) = n"
    using assms by (simp add: uint_word_of_int take_bit_int_eq_self flip: take_bit_eq_mod)
  then show ?thesis
    by (simp only: unat_eq_nat_uint)
qed

lemma unat_s32_pred:
  fixes a :: s32
  assumes "0 < unat a"
  shows "unat (a - 1) + 1 = unat a"
proof -
  have "1 \<le> a"
    using assms by (simp add: word_le_nat_alt)
  then have "unat (a - 1) = unat a - unat (1 :: s32)"
    by (rule unat_sub)
  with assms show ?thesis by simp
qed

lemma CAM_OS_ILOG2_unat:
  assumes n: "1 \<le> n" "n < 2 ^ (8 * sz)" and sz: "sz \<le> 8"
  shows "unat (CAM_OS_ILOG2 cfg c sz n) + 1 = floorlog 2 (nat n)"
proof -
  have "(2::int) ^ (8 * sz) \<le> 2 ^ 64"
    using sz by (intro power_increasing) simp_all
  with n have n64: "n < 2 ^ 64" by linarith
  have u64: "unat (word_of_int n :: u64) = nat n"
    using n n64 by (intro unat_word_of_int_small) simp_all
  have fpos: "0 < floorlog 2 (nat n)"
    using n by (simp add: floorlog_def)
  have nz64: "(word_of_int n :: u64) \<noteq> 0"
    using u64 n by (metis nat_0_iff not_one_le_zero unat_0 order_trans zero_le_one unsigned_0 nat_le_0 le_numeral_extra(2))
  show ?thesis
  proof (cases c)
    case True
    then show ?thesis
      using n ilog2_chain_floorlog [OF nz64] by (simp add: CAM_OS_ILOG2_def u64)
  next
    case False
    show ?thesis
    proof (cases "sz \<le> 4")
      case small: True
      then have "(2::int) ^ (8 * sz) \<le> 2 ^ 32"
        by (intro power_increasing) simp_all
      with n have "n < 2 ^ 32" by linarith
      then have u32: "unat (word_of_int n :: u32) = nat n"
        using n by (intro unat_word_of_int_small) simp_all
      have "unat (CAM_OS_FLS (word_of_int n) - 1) + 1 = unat (CAM_OS_FLS (word_of_int n))"
        using fpos by (intro unat_s32_pred) (simp add: CAM_OS_FLS_floorlog u32)
      then show ?thesis
        using False small by (simp add: CAM_OS_ILOG2_def u_CAM_OS_ILOG2_U32_def CAM_OS_FLS_floorlog u32)
    next
      case large: False
      have "unat (CAM_OS_FLS64 cfg (word_of_int n) - 1) + 1 = unat (CAM_OS_FLS64 cfg (word_of_int n))"
        using fpos by (intro unat_s32_pred) (simp add: CAM_OS_FLS64_floorlog u64)
      then show ?thesis
        using False large by (simp add: CAM_OS_ILOG2_def u_CAM_OS_ILOG2_U64_def CAM_OS_FLS64_floorlog u64)
    qed
  qed
qed

text \<open>
  C3. For every integer \<open>n \<ge> 1\<close> representable in the operand's type (of at most 8
  bytes), \<^verbatim>\<open>CAM_OS_ILOG2(n)\<close> is \<open>\<lfloor>log\<^sub>2 n\<rfloor>\<close>, in either configuration and on either branch,
  and the constant-expression branch (the chain over bits 63 down to 0) returns the same
  value as the runtime branch (\<^verbatim>\<open>_CAM_OS_ILOG2_U32\<close> for operands of up to 4 bytes,
  \<^verbatim>\<open>_CAM_OS_ILOG2_U64\<close> otherwise).
\<close>

theorem CAM_OS_ILOG2_floor_log2:
  assumes "1 \<le> n" "n < 2 ^ (8 * sz)" "sz \<le> 8"
  shows "sint (CAM_OS_ILOG2 cfg c sz n) = \<lfloor>log 2 (real_of_int n)\<rfloor> \<and>
         CAM_OS_ILOG2 cfg True sz n = CAM_OS_ILOG2 cfg False sz n"
proof
  have u: "unat (CAM_OS_ILOG2 cfg c sz n) + 1 = floorlog 2 (nat n)" for c
    using assms by (rule CAM_OS_ILOG2_unat)
  have "unat (CAM_OS_ILOG2 cfg True sz n) = unat (CAM_OS_ILOG2 cfg False sz n)"
    using u [of True] u [of False] by simp
  then show "CAM_OS_ILOG2 cfg True sz n = CAM_OS_ILOG2 cfg False sz n"
    by (simp only: word_unat_eq_iff)
  have "floorlog 2 (nat n) \<le> 64"
  proof -
    have "(2::int) ^ (8 * sz) \<le> 2 ^ 64"
      using assms(3) by (intro power_increasing) simp_all
    with assms have "n < 2 ^ 64" by linarith
    then have "nat n < 2 ^ 64"
      using assms(1) by (simp add: nat_less_iff)
    then show ?thesis by (intro floorlog_leI) simp_all
  qed
  with u [of c] have "unat (CAM_OS_ILOG2 cfg c sz n) \<le> 64" by simp
  then have "sint (CAM_OS_ILOG2 cfg c sz n) = int (unat (CAM_OS_ILOG2 cfg c sz n))"
    by (rule sint_small)
  also have "\<dots> = int (floorlog 2 (nat n)) - 1"
    using u [of c] by linarith
  also have "int (floorlog 2 (nat n)) = 1 + \<lfloor>log 2 (real (nat n))\<rfloor>"
    using assms(1) by (intro floorlog_floor_log2) simp
  also have "real (nat n) = real_of_int n"
    using assms(1) by simp
  finally show "sint (CAM_OS_ILOG2 cfg c sz n) = \<lfloor>log 2 (real_of_int n)\<rfloor>"
    by simp
qed

theorem CAM_OS_ILOG2_floor_log2_witness:
  "(1::int) \<le> 1000 \<and> (1000::int) < 2 ^ (8 * 4) \<and> (4::nat) \<le> 8 \<and>
   CAM_OS_ILOG2 Long32 True 4 1000 = CAM_OS_ILOG2 Long32 False 4 1000 \<and>
   sint (CAM_OS_ILOG2 Long32 False 4 1000) = \<lfloor>log 2 (real_of_int 1000)\<rfloor>"
  using CAM_OS_ILOG2_floor_log2 [of 1000 4 Long32 False] by simp

section \<open>Bitmap operations\<close>

lemma sint_nonneg_eq:
  fixes w :: "'a::len word"
  assumes "0 \<le> sint w"
  shows "sint w = int (unat w)"
proof -
  have s: "sint w = signed_take_bit (LENGTH('a) - 1) (uint w)"
    by (simp add: sint_uint)
  have "uint w < 2 ^ (LENGTH('a) - 1)"
  proof (rule ccontr)
    assume "\<not> uint w < 2 ^ (LENGTH('a) - 1)"
    then have "2 ^ (LENGTH('a) - 1) \<le> uint w" by simp
    then have "signed_take_bit (LENGTH('a) - 1) (uint w) \<le> uint w - 2 ^ Suc (LENGTH('a) - 1)"
      by (rule signed_take_bit_int_less_eq)
    moreover have "uint w < 2 ^ Suc (LENGTH('a) - 1)"
      using uint_bounded [of w] by simp
    ultimately show False using assms s by linarith
  qed
  moreover have "- (2 ^ (LENGTH('a) - 1)) \<le> uint w"
    using uint_ge_0 [of w] by (smt (verit) zero_le_power)
  ultimately have "signed_take_bit (LENGTH('a) - 1) (uint w) = uint w"
    by (intro signed_take_bit_int_eq_self)
  then have "sint w = uint w" using s by simp
  then show ?thesis by simp
qed

lemma s32_result_Some:
  assumes "- (2 ^ 31) \<le> k" "k < 2 ^ 31"
  shows "s32_result k = Some (word_of_int k)" "sint (word_of_int k :: s32) = k"
proof -
  show "s32_result k = Some (word_of_int k)"
    using assms by (simp add: s32_result_def)
  have "signed_take_bit 31 k = k"
    using assms by (intro signed_take_bit_int_eq_self)
  then show "sint (word_of_int k :: s32) = k"
    by (simp add: sint_sbintrunc')
qed


lemma sdiv_nonneg:
  fixes a b :: int
  assumes "0 \<le> a" "0 < b"
  shows "a sdiv b = a div b" "a smod b = a mod b"
  using assms by (simp_all add: signed_divide_int_def signed_modulo_int_def sgn_if)

lemma bits_per_long:
  assumes "LENGTH('a::len) = 32 \<or> LENGTH('a) = 64"
  shows "sint (CAM_OS_BITS_PER_LONG TYPE('a)) = int LENGTH('a)"
    and "CAM_OS_BITS_PER_LONG TYPE('a) \<noteq> 0"
  using assms by (auto simp add: CAM_OS_BITS_PER_LONG_def)

lemma s32_div_nonneg:
  assumes "0 \<le> sint a" "0 < sint b"
  shows "\<exists>q. s32_div a b = Some q \<and> sint q = int (unat a div unat b)"
proof -
  have a: "sint a = int (unat a)" and b: "sint b = int (unat b)"
    using assms by (simp_all add: sint_nonneg_eq)
  have q: "sint a sdiv sint b = int (unat a div unat b)"
    using assms by (simp add: sdiv_nonneg a b zdiv_int)
  have "unat a div unat b \<le> unat a"
    by (rule div_le_dividend)
  then have "int (unat a div unat b) \<le> int (unat a)"
    by (simp only: of_nat_le_iff)
  also have "\<dots> < 2 ^ 31"
    using sint_lt [of a] a by simp
  finally have r: "- (2 ^ 31) \<le> int (unat a div unat b)" "int (unat a div unat b) < 2 ^ 31"
    by simp_all
  have "b \<noteq> 0" using assms(2) by auto
  then show ?thesis
    using s32_result_Some [OF r] by (simp add: s32_div_def q)
qed

lemma s32_mod_nonneg:
  assumes "0 \<le> sint a" "0 < sint b"
  shows "\<exists>q. s32_mod a b = Some q \<and> sint q = int (unat a mod unat b)"
proof -
  have a: "sint a = int (unat a)" and b: "sint b = int (unat b)"
    using assms by (simp_all add: sint_nonneg_eq)
  have q: "sint a smod sint b = int (unat a mod unat b)"
    using assms by (simp add: sdiv_nonneg a b zmod_int)
  have "unat a mod unat b \<le> unat a"
    by (rule mod_less_eq_dividend)
  then have "int (unat a mod unat b) \<le> int (unat a)"
    by (simp only: of_nat_le_iff)
  also have "\<dots> < 2 ^ 31"
    using sint_lt [of a] a by simp
  finally have r: "- (2 ^ 31) \<le> int (unat a mod unat b)" "int (unat a mod unat b) < 2 ^ 31"
    by simp_all
  obtain d where "s32_div a b = Some d"
    using s32_div_nonneg [OF assms] by blast
  then show ?thesis
    using s32_result_Some [OF r] by (simp add: s32_mod_def q)
qed

lemma unat_bits_per_long:
  assumes "LENGTH('a::len) = 32 \<or> LENGTH('a) = 64"
  shows "unat (CAM_OS_BITS_PER_LONG TYPE('a)) = LENGTH('a)"
  using assms by (auto simp add: CAM_OS_BITS_PER_LONG_def)

lemma CAM_OS_BIT_WORD_nonneg:
  assumes "LENGTH('a::len) = 32 \<or> LENGTH('a) = 64" "0 \<le> sint nr"
  shows "\<exists>p. CAM_OS_BIT_WORD TYPE('a) nr = Some p \<and> sint p = int (unat nr div LENGTH('a))"
proof -
  have "0 < sint (CAM_OS_BITS_PER_LONG TYPE('a))"
    using bits_per_long(1) [OF assms(1)] by simp
  from s32_div_nonneg [OF assms(2) this] show ?thesis
    by (simp add: CAM_OS_BIT_WORD_def unat_bits_per_long [OF assms(1)])
qed

lemma CAM_OS_BIT_MASK_nonneg:
  assumes "LENGTH('a::len) = 32 \<or> LENGTH('a) = 64" "0 \<le> sint nr"
  shows "CAM_OS_BIT_MASK nr = Some (2 ^ (unat nr mod LENGTH('a)) :: 'a word)"
proof -
  have "0 < sint (CAM_OS_BITS_PER_LONG TYPE('a))"
    using bits_per_long(1) [OF assms(1)] by simp
  from s32_mod_nonneg [OF assms(2) this]
  obtain q where q: "s32_mod nr (CAM_OS_BITS_PER_LONG TYPE('a)) = Some q"
      "sint q = int (unat nr mod LENGTH('a))"
    by (auto simp add: unat_bits_per_long [OF assms(1)])
  have "unat nr mod LENGTH('a) < LENGTH('a)" by simp
  then have "shift_left_s32 (1 :: 'a word) q = Some (2 ^ (unat nr mod LENGTH('a)))"
    by (simp add: shift_left_s32_def q(2))
  then show ?thesis
    by (simp add: CAM_OS_BIT_MASK_def q(1))
qed

lemma sint_unat_small:
  fixes w :: s32
  assumes "unat w < 64"
  shows "sint w = int (unat w)"
proof -
  have "uint w < 64"
    using assms unfolding uint_nat by linarith
  moreover have "0 \<le> uint w"
    by (rule uint_ge_0)
  moreover have "\<And>i :: int. 0 \<le> i \<Longrightarrow> i < 64 \<Longrightarrow> - (2 ^ 31) \<le> i \<and> i < 2 ^ 31"
    by simp
  ultimately have "- (2 ^ 31) \<le> uint w" "uint w < 2 ^ 31"
    by blast+
  then have "sint (word_of_int (uint w) :: s32) = uint w"
    by (rule s32_result_Some(2))
  then have "sint w = uint w"
    by (simp only: word_of_int_uint)
  then show ?thesis
    by (simp only: uint_nat)
qed

lemma and_bits_per_long:
  assumes "LENGTH('a::len) = 32 \<or> LENGTH('a) = 64"
  shows "sint (nr AND (CAM_OS_BITS_PER_LONG TYPE('a) - 1)) = int (unat nr mod LENGTH('a))"
proof -
  have m: "unat (nr AND mask k) = unat nr mod 2 ^ k" for k
    by (simp add: flip: take_bit_eq_mask take_bit_eq_mod) (simp add: unsigned_take_bit_eq)
  have "unat (nr AND mask 5) < 64" "unat (nr AND mask 6) < 64"
    unfolding m by (simp_all add: less_trans [OF mod_less_divisor])
  then have s: "sint (nr AND mask 5) = int (unat nr mod 2 ^ 5)"
      "sint (nr AND mask 6) = int (unat nr mod 2 ^ 6)"
    by (simp_all only: sint_unat_small m)
  have "CAM_OS_BITS_PER_LONG TYPE('a) - 1 = mask 5 \<and> LENGTH('a) = 2 ^ 5 \<or>
        CAM_OS_BITS_PER_LONG TYPE('a) - 1 = mask 6 \<and> LENGTH('a) = 2 ^ 6"
    using assms by (auto simp add: CAM_OS_BITS_PER_LONG_def mask_eq_exp_minus_1)
  then show ?thesis
    using s by auto
qed

lemma word_at_eq:
  assumes "sint p = int k"
  shows "word_at addr p = (if k < length addr then Some (addr ! k) else None)"
  using assms by (simp add: word_at_def)

lemma mask_test:
  fixes old :: "'a::len word"
  shows "old AND 2 ^ b \<noteq> 0 \<longleftrightarrow> bit old b"
  using bit_iff_and_push_bit_not_eq_0 [of old b] by simp

lemma CAM_OS_TEST_AND_SET_BIT_nonneg:
  fixes addr :: "'a::len word list"
  assumes "LENGTH('a) = 32 \<or> LENGTH('a) = 64" "0 \<le> sint nr"
  shows "CAM_OS_TEST_AND_SET_BIT nr addr =
     (if unat nr div LENGTH('a) < length addr
      then Some (if bitmap_bit addr (unat nr) then 1 else 0,
                 addr[unat nr div LENGTH('a) :=
                   addr ! (unat nr div LENGTH('a)) OR 2 ^ (unat nr mod LENGTH('a))])
      else None)"
proof -
  obtain p where p: "CAM_OS_BIT_WORD TYPE('a) nr = Some p" "sint p = int (unat nr div LENGTH('a))"
    using CAM_OS_BIT_WORD_nonneg [OF assms] by blast
  show ?thesis
    by (simp add: CAM_OS_TEST_AND_SET_BIT_def CAM_OS_BIT_MASK_nonneg [OF assms] p
        word_at_eq [OF p(2)] mask_test bitmap_bit_def)
qed

lemma CAM_OS_TEST_AND_CLEAR_BIT_nonneg:
  fixes addr :: "'a::len word list"
  assumes "LENGTH('a) = 32 \<or> LENGTH('a) = 64" "0 \<le> sint nr"
  shows "CAM_OS_TEST_AND_CLEAR_BIT nr addr =
     (if unat nr div LENGTH('a) < length addr
      then Some (if bitmap_bit addr (unat nr) then 1 else 0,
                 addr[unat nr div LENGTH('a) :=
                   addr ! (unat nr div LENGTH('a)) AND NOT (2 ^ (unat nr mod LENGTH('a)))])
      else None)"
proof -
  obtain p where p: "CAM_OS_BIT_WORD TYPE('a) nr = Some p" "sint p = int (unat nr div LENGTH('a))"
    using CAM_OS_BIT_WORD_nonneg [OF assms] by blast
  show ?thesis
    by (simp add: CAM_OS_TEST_AND_CLEAR_BIT_def CAM_OS_BIT_MASK_nonneg [OF assms] p
        word_at_eq [OF p(2)] mask_test bitmap_bit_def)
qed

lemma CAM_OS_TEST_BIT_nonneg:
  fixes addr :: "'a::len word list"
  assumes "LENGTH('a) = 32 \<or> LENGTH('a) = 64" "0 \<le> sint nr"
  shows "CAM_OS_TEST_BIT nr addr =
     (if unat nr div LENGTH('a) < length addr
      then Some (if bitmap_bit addr (unat nr) then 1 else 0)
      else None)"
proof -
  obtain p where p: "CAM_OS_BIT_WORD TYPE('a) nr = Some p" "sint p = int (unat nr div LENGTH('a))"
    using CAM_OS_BIT_WORD_nonneg [OF assms] by blast
  have t: "1 AND drop_bit n w = (if bit w n then 1 else 0)" for w :: "'a word" and n
    by (simp add: one_and_eq bit_iff_odd_drop_bit mod_2_eq_odd)
  have "shift_right_s32 w (nr AND (CAM_OS_BITS_PER_LONG TYPE('a) - 1)) =
      Some (drop_bit (unat nr mod LENGTH('a)) w)" for w :: "'a word"
    by (simp add: shift_right_s32_def and_bits_per_long [OF assms(1)])
  then show ?thesis
    by (simp add: CAM_OS_TEST_BIT_def p word_at_eq [OF p(2)] t bitmap_bit_def)
qed

lemma index_split:
  fixes W :: nat
  assumes "m \<noteq> n" "m div W = n div W"
  shows "m mod W \<noteq> n mod W"
  using assms by (metis div_mult_mod_eq)

lemma bit_or_mask:
  fixes old :: "'a::len word"
  assumes "b < LENGTH('a)"
  shows "bit (old OR 2 ^ b) j \<longleftrightarrow> bit old j \<or> j = b"
  using assms by (auto simp add: bit_simps dest: bit_imp_le_length)

lemma bit_and_not_mask:
  fixes old :: "'a::len word"
  assumes "b < LENGTH('a)"
  shows "bit (old AND NOT (2 ^ b)) j \<longleftrightarrow> bit old j \<and> j \<noteq> b"
  using assms by (auto simp add: bit_simps dest: bit_imp_le_length)

lemma bitmap_bit_set:
  fixes addr :: "'a::len word list"
  assumes "n div LENGTH('a) < length addr"
  shows "bitmap_bit (addr[n div LENGTH('a) :=
            addr ! (n div LENGTH('a)) OR 2 ^ (n mod LENGTH('a))]) m
         \<longleftrightarrow> bitmap_bit addr m \<or> m = n"
proof (cases "m div LENGTH('a) = n div LENGTH('a)")
  case True
  have "m = n \<longleftrightarrow> m mod LENGTH('a) = n mod LENGTH('a)"
    using index_split [of m n "LENGTH('a)"] True by auto
  then show ?thesis
    using True assms by (simp add: bitmap_bit_def bit_or_mask)
next
  case False
  then have "m \<noteq> n" by auto
  with False show ?thesis
    by (simp add: bitmap_bit_def)
qed

lemma bitmap_bit_clear:
  fixes addr :: "'a::len word list"
  assumes "n div LENGTH('a) < length addr"
  shows "bitmap_bit (addr[n div LENGTH('a) :=
            addr ! (n div LENGTH('a)) AND NOT (2 ^ (n mod LENGTH('a)))]) m
         \<longleftrightarrow> bitmap_bit addr m \<and> m \<noteq> n"
proof (cases "m div LENGTH('a) = n div LENGTH('a)")
  case True
  have "m = n \<longleftrightarrow> m mod LENGTH('a) = n mod LENGTH('a)"
    using index_split [of m n "LENGTH('a)"] True by auto
  then show ?thesis
    using True assms by (simp add: bitmap_bit_def bit_and_not_mask)
next
  case False
  then have "m \<noteq> n" by auto
  with False show ?thesis
    by (simp add: bitmap_bit_def)
qed

lemma s32_result_SomeD:
  assumes "s32_result k = Some w"
  shows "sint w = k"
proof -
  have r: "- (2 ^ 31) \<le> k" "k < 2 ^ 31"
    using assms by (simp_all add: s32_result_def split: if_splits)
  have "w = word_of_int k"
    using assms r by (simp add: s32_result_def)
  then show ?thesis
    using s32_result_Some(2) [OF r] by simp
qed

lemma div_round_up_less:
  fixes W :: int
  assumes "0 < W" "nr < bits"
  shows "nr div W < (bits + W - 1) div W"
proof -
  have "nr div W \<le> (bits - 1) div W"
    using assms by (intro zdiv_mono1) simp_all
  also have "\<dots> < (bits - 1) div W + 1" by simp
  also have "\<dots> = (bits - 1 + W) div W"
    using assms(1) by simp
  also have "bits - 1 + W = bits + W - 1" by simp
  finally show ?thesis .
qed

lemma CAM_OS_DECLARE_BITMAP_index:
  fixes addr :: "'a::len word list"
  assumes len: "LENGTH('a) = 32 \<or> LENGTH('a) = 64"
    and nr: "0 \<le> sint nr" "sint nr < sint bits"
    and decl: "CAM_OS_DECLARE_BITMAP bits addr"
  shows "unat nr div LENGTH('a) < length addr"
proof -
  define W where "W = int LENGTH('a)"
  have W: "0 < W" by (simp add: W_def)
  have bpl: "sint (CAM_OS_BITS_PER_LONG TYPE('a)) = W"
    unfolding W_def using len by (rule bits_per_long(1))
  obtain n where n: "CAM_OS_BITS_TO_LONGS TYPE('a) bits = Some n" "length addr = nat (sint n)"
    using decl by (auto simp add: CAM_OS_DECLARE_BITMAP_def split: option.splits)
  obtain s t where s: "s32_add bits (CAM_OS_BITS_PER_LONG TYPE('a)) = Some s"
    and t: "s32_sub s 1 = Some t"
    and d: "s32_div t (CAM_OS_BITS_PER_LONG TYPE('a)) = Some n"
    using n(1) by (auto simp add: CAM_OS_BITS_TO_LONGS_def CAM_OS_DIV_ROUND_UP_def
        split: bind_splits)
  have "sint s = sint bits + W"
    using s bpl by (simp add: s32_add_def s32_result_SomeD)
  moreover have "sint t = sint s - 1"
    using t by (simp add: s32_sub_def s32_result_SomeD)
  ultimately have st: "sint t = sint bits + W - 1"
    by simp
  then have t0: "0 \<le> sint t"
    using nr W by linarith
  have "sint n = sint t sdiv W"
    using d bpl by (auto simp add: s32_div_def s32_result_SomeD split: if_splits)
  also have "\<dots> = (sint bits + W - 1) div W"
    using t0 W by (simp add: sdiv_nonneg st)
  finally have sn: "sint n = (sint bits + W - 1) div W" .
  have "sint nr div W < sint n"
    unfolding sn using W nr(2) by (rule div_round_up_less)
  moreover have "sint nr div W = int (unat nr div LENGTH('a))"
    using nr(1) by (simp add: sint_nonneg_eq W_def zdiv_int)
  ultimately show ?thesis
    using n(2) by linarith
qed

text \<open>
  C8. For a bitmap declared with \<open>bits\<close> bits (\<^verbatim>\<open>CAM_OS_DECLARE_BITMAP\<close>) and every \<^verbatim>\<open>s32\<close>
  bit number \<open>nr\<close> with \<open>0 \<le> nr < bits\<close>, \<^verbatim>\<open>CAM_OS_TEST_AND_SET_BIT\<close> returns nonzero exactly
  when bit \<open>nr\<close> was set before and leaves it set, \<^verbatim>\<open>CAM_OS_TEST_AND_CLEAR_BIT\<close> returns
  nonzero exactly when it was set before and leaves it clear. Both keep the length of the
  array and every bit of it other than bit \<open>nr\<close>, and \<^verbatim>\<open>CAM_OS_TEST_BIT\<close> gives the same
  answer as before at every other position \<open>m \<ge> 0\<close>. \<^verbatim>\<open>unsigned long\<close> has 32 or 64 bits.
\<close>

theorem bitmap_test_and_set_clear:
  fixes addr :: "'a::len word list" and nr bits :: s32
  assumes len: "LENGTH('a) = 32 \<or> LENGTH('a) = 64"
    and nr: "0 \<le> sint nr" "sint nr < sint bits"
    and decl: "CAM_OS_DECLARE_BITMAP bits addr"
  shows "(\<exists>r addr'. CAM_OS_TEST_AND_SET_BIT nr addr = Some (r, addr') \<and>
            (r \<noteq> 0 \<longleftrightarrow> bitmap_bit addr (unat nr)) \<and>
            (r \<noteq> 0 \<longleftrightarrow> CAM_OS_TEST_BIT nr addr = Some 1) \<and>
            CAM_OS_TEST_BIT nr addr' = Some 1 \<and>
            bitmap_bit addr' (unat nr) \<and>
            length addr' = length addr \<and>
            (\<forall>n. n < LENGTH('a) * length addr \<and> n \<noteq> unat nr \<longrightarrow>
                 bitmap_bit addr' n = bitmap_bit addr n) \<and>
            (\<forall>m. 0 \<le> sint m \<and> m \<noteq> nr \<longrightarrow>
                 CAM_OS_TEST_BIT m addr' = CAM_OS_TEST_BIT m addr)) \<and>
         (\<exists>r addr'. CAM_OS_TEST_AND_CLEAR_BIT nr addr = Some (r, addr') \<and>
            (r \<noteq> 0 \<longleftrightarrow> bitmap_bit addr (unat nr)) \<and>
            (r \<noteq> 0 \<longleftrightarrow> CAM_OS_TEST_BIT nr addr = Some 1) \<and>
            CAM_OS_TEST_BIT nr addr' = Some 0 \<and>
            \<not> bitmap_bit addr' (unat nr) \<and>
            length addr' = length addr \<and>
            (\<forall>n. n < LENGTH('a) * length addr \<and> n \<noteq> unat nr \<longrightarrow>
                 bitmap_bit addr' n = bitmap_bit addr n) \<and>
            (\<forall>m. 0 \<le> sint m \<and> m \<noteq> nr \<longrightarrow>
                 CAM_OS_TEST_BIT m addr' = CAM_OS_TEST_BIT m addr))"
proof -
  define p where "p = unat nr div LENGTH('a)"
  define b where "b = unat nr mod LENGTH('a)"
  define r :: s32 where "r = (if bitmap_bit addr (unat nr) then 1 else 0)"
  have p: "p < length addr"
    unfolding p_def using len nr decl by (rule CAM_OS_DECLARE_BITMAP_index)
  have neq: "unat m \<noteq> unat nr" if "m \<noteq> nr" for m :: s32
    using that by (simp add: word_unat_eq_iff)
  have r: "r \<noteq> 0 \<longleftrightarrow> bitmap_bit addr (unat nr)"
    by (simp add: r_def)
  have t: "CAM_OS_TEST_BIT nr addr = Some 1 \<longleftrightarrow> bitmap_bit addr (unat nr)"
    using p by (simp add: CAM_OS_TEST_BIT_nonneg [OF len nr(1)] p_def)
  have set: "bitmap_bit (addr[p := addr ! p OR 2 ^ b]) n \<longleftrightarrow> bitmap_bit addr n \<or> n = unat nr" for n
    unfolding p_def b_def using p [unfolded p_def] by (rule bitmap_bit_set)
  have clr: "bitmap_bit (addr[p := addr ! p AND NOT (2 ^ b)]) n \<longleftrightarrow> bitmap_bit addr n \<and> n \<noteq> unat nr" for n
    unfolding p_def b_def using p [unfolded p_def] by (rule bitmap_bit_clear)
  have tset: "CAM_OS_TEST_BIT m (addr[p := addr ! p OR 2 ^ b]) =
      (if m = nr then Some 1 else CAM_OS_TEST_BIT m addr)" if "0 \<le> sint m" for m
    using p neq [of m]
    by (simp add: CAM_OS_TEST_BIT_nonneg [OF len that] CAM_OS_TEST_BIT_nonneg [OF len nr(1)] set
        flip: p_def)
  have tclr: "CAM_OS_TEST_BIT m (addr[p := addr ! p AND NOT (2 ^ b)]) =
      (if m = nr then Some 0 else CAM_OS_TEST_BIT m addr)" if "0 \<le> sint m" for m
    using p neq [of m]
    by (simp add: CAM_OS_TEST_BIT_nonneg [OF len that] CAM_OS_TEST_BIT_nonneg [OF len nr(1)] clr
        flip: p_def)
  have "CAM_OS_TEST_AND_SET_BIT nr addr = Some (r, addr[p := addr ! p OR 2 ^ b])"
    using p by (simp add: CAM_OS_TEST_AND_SET_BIT_nonneg [OF len nr(1)] r_def flip: p_def b_def)
  moreover have "CAM_OS_TEST_AND_CLEAR_BIT nr addr = Some (r, addr[p := addr ! p AND NOT (2 ^ b)])"
    using p by (simp add: CAM_OS_TEST_AND_CLEAR_BIT_nonneg [OF len nr(1)] r_def flip: p_def b_def)
  ultimately show ?thesis
    using r t set clr tset tclr nr(1) by simp
qed

theorem bitmap_test_and_set_clear_witness:
  "0 \<le> sint (37 :: s32) \<and> sint (37 :: s32) < sint (40 :: s32) \<and>
   CAM_OS_DECLARE_BITMAP 40 [5, 0 :: 32 word] \<and>
   (\<exists>r addr'. CAM_OS_TEST_AND_SET_BIT 37 [5, 0 :: 32 word] = Some (r, addr') \<and>
      CAM_OS_TEST_BIT 37 addr' = Some 1 \<and>
      CAM_OS_TEST_BIT 2 addr' = CAM_OS_TEST_BIT 2 [5, 0 :: 32 word]) \<and>
   CAM_OS_TEST_AND_SET_BIT 37 [5, 0 :: 32 word] = Some (0, [5, 32]) \<and>
   CAM_OS_TEST_AND_CLEAR_BIT 2 [5, 0 :: 32 word] = Some (1, [1, 0]) \<and>
   CAM_OS_TEST_BIT 2 [5, 32 :: 32 word] = Some 1"
proof -
  have h1: "0 \<le> sint (37 :: s32)" by code_simp
  have h2: "sint (37 :: s32) < sint (40 :: s32)" by code_simp
  have h3: "CAM_OS_DECLARE_BITMAP 40 [5, 0 :: 32 word]" by code_simp
  have h4: "0 \<le> sint (2 :: s32) \<and> (2 :: s32) \<noteq> 37" by code_simp
  have c1: "CAM_OS_TEST_AND_SET_BIT 37 [5, 0 :: 32 word] = Some (0, [5, 32])" by code_simp
  have c2: "CAM_OS_TEST_AND_CLEAR_BIT 2 [5, 0 :: 32 word] = Some (1, [1, 0])" by code_simp
  have c3: "CAM_OS_TEST_BIT 2 [5, 32 :: 32 word] = Some 1" by code_simp
  have "\<exists>r addr'. CAM_OS_TEST_AND_SET_BIT 37 [5, 0 :: 32 word] = Some (r, addr') \<and>
      CAM_OS_TEST_BIT 37 addr' = Some 1 \<and>
      CAM_OS_TEST_BIT 2 addr' = CAM_OS_TEST_BIT 2 [5, 0 :: 32 word]"
    using bitmap_test_and_set_clear [where addr = "[5, 0 :: 32 word]" and nr = 37 and bits = 40,
        OF _ h1 h2 h3] h4
    by fastforce
  then show ?thesis
    using h1 h2 h3 c1 c2 c3 by blast
qed

text \<open>
  A negative bit number is no position of a bitmap. \<^verbatim>\<open>CAM_OS_TEST_BIT\<close> is still defined
  for \<open>-(w - 1) \<le> nr \<le> -1\<close>, where it reads bit \<open>nr & (w - 1)\<close> of word 0: with 32-bit words,
  bit number \<open>-1\<close> reads bit 31, so its answer changes when bit 31 is set. The operations
  that form \<^verbatim>\<open>CAM_OS_BIT_MASK\<close> are undefined for it, and \<open>-32\<close> is before the array.
\<close>

lemma CAM_OS_TEST_BIT_negative_index:
  "CAM_OS_TEST_BIT (- 1) [0 :: 32 word] = Some 0 \<and>
   CAM_OS_TEST_AND_SET_BIT 31 [0 :: 32 word] = Some (0, [0x80000000]) \<and>
   CAM_OS_TEST_BIT (- 1) [0x80000000 :: 32 word] = Some 1 \<and>
   CAM_OS_TEST_BIT (- 32) [0 :: 32 word] = None \<and>
   CAM_OS_TEST_AND_SET_BIT (- 1) [0 :: 32 word] = None"
  by code_simp

section \<open>Decoding an encoded ioctl number\<close>

lemmas ioc_defs = CAM_OS_IOC_NRBITS_def CAM_OS_IOC_TYPEBITS_def CAM_OS_IOC_SIZEBITS_def
  CAM_OS_IOC_DIRBITS_def CAM_OS_IOC_NRMASK_def CAM_OS_IOC_TYPEMASK_def CAM_OS_IOC_SIZEMASK_def
  CAM_OS_IOC_DIRMASK_def CAM_OS_IOC_NRSHIFT_def CAM_OS_IOC_TYPESHIFT_def CAM_OS_IOC_SIZESHIFT_def
  CAM_OS_IOC_DIRSHIFT_def CAM_OS_IOC_def CAM_OS_IOC_DIR_def CAM_OS_IOC_TYPE_def CAM_OS_IOC_NR_def
  CAM_OS_IOC_SIZE_def

lemma mask_by_push: "push_bit n 1 - 1 = (mask n :: 'a::len word)"
  by (simp add: mask_eq_exp_minus_1)

lemma ioc_roundtrip:
  fixes dir type nr sz :: "'a::len word"
  assumes len: "32 \<le> LENGTH('a)"
    and d: "unat dir < 2 ^ 2" and t: "unat type < 2 ^ 8" and n: "unat nr < 2 ^ 8"
    and s: "unat sz < 2 ^ 14"
  shows "CAM_OS_IOC_DIR (CAM_OS_IOC dir type nr sz) = dir"
    and "CAM_OS_IOC_TYPE (CAM_OS_IOC dir type nr sz) = type"
    and "CAM_OS_IOC_NR (CAM_OS_IOC dir type nr sz) = nr"
    and "CAM_OS_IOC_SIZE (CAM_OS_IOC dir type nr sz) = sz"
proof -
  note D = unat_less_bitD [OF d] unat_less_bitD [OF t] unat_less_bitD [OF n] unat_less_bitD [OF s]
  show "CAM_OS_IOC_DIR (CAM_OS_IOC dir type nr sz) = dir"
    unfolding ioc_defs mask_by_push
    using len by (rule_tac bit_word_eqI) (auto simp add: bit_simps dest: D)
  show "CAM_OS_IOC_TYPE (CAM_OS_IOC dir type nr sz) = type"
    unfolding ioc_defs mask_by_push
    using len by (rule_tac bit_word_eqI) (auto simp add: bit_simps dest: D)
  show "CAM_OS_IOC_NR (CAM_OS_IOC dir type nr sz) = nr"
    unfolding ioc_defs mask_by_push
    using len by (rule_tac bit_word_eqI) (auto simp add: bit_simps dest: D)
  show "CAM_OS_IOC_SIZE (CAM_OS_IOC dir type nr sz) = sz"
    unfolding ioc_defs mask_by_push
    using len by (rule_tac bit_word_eqI) (auto simp add: bit_simps dest: D)
qed

text \<open>
  C5. For \<open>dir < 2\<^sup>2\<close>, \<open>type < 2\<^sup>8\<close>, \<open>nr < 2\<^sup>8\<close> and \<open>size < 2\<^sup>1\<^sup>4\<close>, the four decode macros
  recover the fields of \<^verbatim>\<open>CAM_OS_IOC(dir,type,nr,size)\<close>, on any unsigned type of at least 32
  bits.
\<close>

theorem CAM_OS_IOC_decode_encode:
  fixes dir type nr sz :: "'a::len word"
  assumes "32 \<le> LENGTH('a)"
    and "unat dir < 2 ^ 2" and "unat type < 2 ^ 8" and "unat nr < 2 ^ 8" and "unat sz < 2 ^ 14"
  shows "CAM_OS_IOC_DIR (CAM_OS_IOC dir type nr sz) = dir \<and>
         CAM_OS_IOC_TYPE (CAM_OS_IOC dir type nr sz) = type \<and>
         CAM_OS_IOC_NR (CAM_OS_IOC dir type nr sz) = nr \<and>
         CAM_OS_IOC_SIZE (CAM_OS_IOC dir type nr sz) = sz"
  using ioc_roundtrip [OF assms] by simp

theorem CAM_OS_IOC_decode_encode_witness:
  "32 \<le> LENGTH(32) \<and> unat (3 :: u32) < 2 ^ 2 \<and> unat (0x6b :: u32) < 2 ^ 8 \<and>
   unat (200 :: u32) < 2 ^ 8 \<and> unat (0x3fff :: u32) < 2 ^ 14 \<and>
   CAM_OS_IOC 3 0x6b 200 0x3fff = (0xffff6bc8 :: u32) \<and>
   CAM_OS_IOC_DIR (CAM_OS_IOC 3 0x6b 200 0x3fff :: u32) = 3 \<and>
   CAM_OS_IOC_TYPE (CAM_OS_IOC 3 0x6b 200 0x3fff :: u32) = 0x6b \<and>
   CAM_OS_IOC_NR (CAM_OS_IOC 3 0x6b 200 0x3fff :: u32) = 200 \<and>
   CAM_OS_IOC_SIZE (CAM_OS_IOC 3 0x6b 200 0x3fff :: u32) = 0x3fff"
  using CAM_OS_IOC_decode_encode [of "3 :: u32" "0x6b" 200 "0x3fff"]
  by (simp add: ioc_defs)

section \<open>Deleting from a hash list\<close>

lemmas hlist_defs = set_ppPrev_def set_node_pNext_def CAM_OS_INIT_HLIST_NODE_def
  CAM_OS_HLIST_UNHASHED_def u_CAM_OS_HLIST_DEL_def CAM_OS_HLIST_DEL_INIT_def

lemma CAM_OS_HLIST_DEL_INIT_unhashed:
  "CAM_OS_HLIST_UNHASHED n m \<Longrightarrow> CAM_OS_HLIST_DEL_INIT n m = Some m"
  by (simp add: CAM_OS_HLIST_DEL_INIT_def)

text \<open>The call never stores through \<^verbatim>\<open>NULL\<close>, and it leaves the node unhashed.\<close>

lemma CAM_OS_HLIST_DEL_INIT_total:
  "\<exists>m'. CAM_OS_HLIST_DEL_INIT n m = Some m' \<and> CAM_OS_HLIST_UNHASHED n m'"
  by (cases "ppPrev (nodes m n)") (simp_all add: hlist_defs Let_def)

text \<open>
  C10. \<^verbatim>\<open>CAM_OS_HLIST_DEL_INIT\<close> on a node with \<^verbatim>\<open>ppPrev == NULL\<close> returns with the memory
  (the node and every hash list) unchanged; \<^verbatim>\<open>CAM_OS_INIT_HLIST_NODE\<close> and
  \<^verbatim>\<open>CAM_OS_HLIST_DEL_INIT\<close> itself leave the node in that state; hence on any node and any
  memory the call returns, and a second call in succession returns the memory of the
  first.
\<close>

theorem CAM_OS_HLIST_DEL_INIT_idempotent:
  "(CAM_OS_HLIST_UNHASHED n m \<longrightarrow> CAM_OS_HLIST_DEL_INIT n m = Some m) \<and>
   CAM_OS_HLIST_UNHASHED n (CAM_OS_INIT_HLIST_NODE n m) \<and>
   (\<exists>m'. CAM_OS_HLIST_DEL_INIT n m = Some m' \<and> CAM_OS_HLIST_UNHASHED n m' \<and>
         Option.bind (CAM_OS_HLIST_DEL_INIT n m) (CAM_OS_HLIST_DEL_INIT n) = Some m')"
proof (intro conjI impI)
  assume "CAM_OS_HLIST_UNHASHED n m"
  then show "CAM_OS_HLIST_DEL_INIT n m = Some m"
    by (rule CAM_OS_HLIST_DEL_INIT_unhashed)
next
  show "CAM_OS_HLIST_UNHASHED n (CAM_OS_INIT_HLIST_NODE n m)"
    by (simp add: hlist_defs)
next
  obtain m' where m': "CAM_OS_HLIST_DEL_INIT n m = Some m'" "CAM_OS_HLIST_UNHASHED n m'"
    using CAM_OS_HLIST_DEL_INIT_total by blast
  then have "CAM_OS_HLIST_DEL_INIT n m' = Some m'"
    by (simp add: CAM_OS_HLIST_DEL_INIT_unhashed)
  with m' show "\<exists>m'. CAM_OS_HLIST_DEL_INIT n m = Some m' \<and> CAM_OS_HLIST_UNHASHED n m' \<and>
         Option.bind (CAM_OS_HLIST_DEL_INIT n m) (CAM_OS_HLIST_DEL_INIT n) = Some m'"
    by simp
qed

text \<open>
  The witness: node 7 is unhashed in the zero memory, and hashed after
  \<^verbatim>\<open>CAM_OS_HLIST_ADD_HEAD\<close> puts it first in the list of head 3 before node 8; deleting it
  there makes node 8 the first of head 3.
\<close>

theorem CAM_OS_HLIST_DEL_INIT_idempotent_witness:
  "CAM_OS_HLIST_UNHASHED 7 hmem_zero \<and> CAM_OS_HLIST_DEL_INIT 7 hmem_zero = Some hmem_zero \<and>
   \<not> CAM_OS_HLIST_UNHASHED 7 (CAM_OS_HLIST_ADD_HEAD 7 3 (CAM_OS_HLIST_ADD_HEAD 8 3 hmem_zero)) \<and>
   (\<exists>m'. CAM_OS_HLIST_DEL_INIT 7 (CAM_OS_HLIST_ADD_HEAD 7 3 (CAM_OS_HLIST_ADD_HEAD 8 3 hmem_zero))
            = Some m' \<and>
          pFirst (heads m' 3) = 8 \<and> CamOsHListNode_t.ppPrev (nodes m' 8) = FirstOf 3 \<and>
          CAM_OS_HLIST_DEL_INIT 7 m' = Some m')"
  using CAM_OS_HLIST_DEL_INIT_idempotent [of 7 hmem_zero]
    CAM_OS_HLIST_DEL_INIT_idempotent
      [of 7 "CAM_OS_HLIST_ADD_HEAD 7 3 (CAM_OS_HLIST_ADD_HEAD 8 3 hmem_zero)"]
  by (auto simp add: hmem_zero_def hlist_defs CAM_OS_HLIST_ADD_HEAD_def NULL_def Let_def)

section \<open>Insertion and deletion on one list\<close>

lemmas list_defs = set_pNext_def set_pPrev_def CAM_OS_INIT_LIST_HEAD_def u_CAM_OS_LIST_ADD_def
  CAM_OS_LIST_ADD_def CAM_OS_LIST_ADD_TAIL_def u_CAM_OS_LIST_DEL_def u_CAM_OS_LIST_DEL_ENTRY_def
  CAM_OS_LIST_DEL_def CAM_OS_LIST_DEL_INIT_def CAM_OS_LIST_EMPTY_def

text \<open>
  C7. \<^verbatim>\<open>CAM_OS_LIST_ADD(pNew, head)\<close> puts \<open>pNew\<close> right after \<open>head\<close>: afterwards
  \<^verbatim>\<open>head->pNext == pNew\<close>, \<^verbatim>\<open>pNew->pPrev == head\<close>, \<^verbatim>\<open>pNew->pNext\<close> is the former
  \<^verbatim>\<open>head->pNext\<close>, and that former first node has \<^verbatim>\<open>pPrev == pNew\<close>;
  \<^verbatim>\<open>CAM_OS_LIST_ADD_TAIL(pNew, head)\<close> puts it right before \<open>head\<close>, symmetrically; both
  leave the fields of every node other than \<open>head\<close>, \<open>pNew\<close> and the one adjacent node as
  they were. \<open>pNew\<close> is a node that is not on the list: it is neither \<open>head\<close> nor one of
  its two neighbours, which is all the proof needs of the list.
\<close>

theorem CAM_OS_LIST_ADD_frame:
  assumes "pNew \<noteq> head" and "pNew \<noteq> pNext (h head)" and "pNew \<noteq> pPrev (h head)"
  shows "(let first = pNext (h head); h' = CAM_OS_LIST_ADD pNew head h in
            pNext (h' head) = pNew \<and> pPrev (h' pNew) = head \<and> pNext (h' pNew) = first \<and>
            pPrev (h' first) = pNew \<and>
            (\<forall>q. q \<noteq> head \<and> q \<noteq> pNew \<and> q \<noteq> first \<longrightarrow> h' q = h q)) \<and>
         (let last = pPrev (h head); h' = CAM_OS_LIST_ADD_TAIL pNew head h in
            pPrev (h' head) = pNew \<and> pNext (h' pNew) = head \<and> pPrev (h' pNew) = last \<and>
            pNext (h' last) = pNew \<and>
            (\<forall>q. q \<noteq> head \<and> q \<noteq> pNew \<and> q \<noteq> last \<longrightarrow> h' q = h q))"
proof -
  let ?first = "pNext (h head)" and ?last = "pPrev (h head)"
  have add: "CAM_OS_LIST_ADD pNew head h =
      set_pNext head pNew (set_pPrev pNew head (set_pNext pNew ?first (set_pPrev ?first pNew h)))"
    by (simp add: CAM_OS_LIST_ADD_def u_CAM_OS_LIST_ADD_def)
  have tail: "CAM_OS_LIST_ADD_TAIL pNew head h =
      set_pNext ?last pNew (set_pPrev pNew ?last (set_pNext pNew head (set_pPrev head pNew h)))"
    by (simp add: CAM_OS_LIST_ADD_TAIL_def u_CAM_OS_LIST_ADD_def)
  show ?thesis
    unfolding Let_def add tail using assms by (simp add: set_pNext_def set_pPrev_def)
qed

theorem CAM_OS_LIST_ADD_frame_witness:
  "(let h = CAM_OS_LIST_ADD 20 10 (CAM_OS_INIT_LIST_HEAD 10 heap_zero);
        h' = CAM_OS_LIST_ADD 30 10 h; h'' = CAM_OS_LIST_ADD_TAIL 30 10 h in
      (30::nat) \<noteq> 10 \<and> 30 \<noteq> pNext (h 10) \<and> 30 \<noteq> pPrev (h 10) \<and>
      pNext (h 10) = 20 \<and> pPrev (h 10) = 20 \<and>
      pNext (h' 10) = 30 \<and> pNext (h' 30) = 20 \<and> pPrev (h' 20) = 30 \<and> pPrev (h' 30) = 10 \<and>
      pNext (h' 20) = 10 \<and> pPrev (h' 10) = 20 \<and>
      pPrev (h'' 10) = 30 \<and> pNext (h'' 30) = 10 \<and> pPrev (h'' 30) = 20 \<and>
      pNext (h'' 20) = 30 \<and> pNext (h'' 10) = 20 \<and> pPrev (h'' 20) = 10)"
  using CAM_OS_LIST_ADD_frame
    [of 30 10 "CAM_OS_LIST_ADD 20 10 (CAM_OS_INIT_LIST_HEAD 10 heap_zero)"]
  by (simp add: list_defs Let_def heap_zero_def)

text \<open>
  C9. \<^verbatim>\<open>CAM_OS_LIST_DEL(pEntry)\<close> leaves \<open>0x00100100\<close> in \<^verbatim>\<open>pEntry->pNext\<close> and \<open>0x00200200\<close>
  in \<^verbatim>\<open>pEntry->pPrev\<close>, so that an entry that does not itself live at a poison address is
  not a valid list: neither field points at it and \<^verbatim>\<open>CAM_OS_LIST_EMPTY\<close> is false of it.
  For an entry of a well-formed list (its neighbours point back at it, and it is not
  alone in its ring) the former neighbours are linked to each other, by
  \<^verbatim>\<open>CAM_OS_LIST_DEL\<close> and by \<^verbatim>\<open>CAM_OS_LIST_DEL_INIT\<close> alike. \<^verbatim>\<open>CAM_OS_LIST_DEL_INIT\<close> leaves
  every entry a valid empty list: \<^verbatim>\<open>pNext == pPrev == entry\<close>, \<^verbatim>\<open>CAM_OS_LIST_EMPTY\<close> true.
\<close>

theorem CAM_OS_LIST_DEL_poisons:
  "(let h' = CAM_OS_LIST_DEL e h in
      pNext (h' e) = 0x00100100 \<and> pPrev (h' e) = 0x00200200 \<and>
      (e \<noteq> CAM_OS_LIST_POISON1 \<longrightarrow> \<not> CAM_OS_LIST_EMPTY e h') \<and>
      (e \<noteq> CAM_OS_LIST_POISON1 \<and> e \<noteq> CAM_OS_LIST_POISON2 \<longrightarrow>
         pNext (h' e) \<noteq> e \<and> pPrev (h' e) \<noteq> e)) \<and>
   (pPrev (h (pNext (h e))) = e \<and> pNext (h (pPrev (h e))) = e \<and> \<not> CAM_OS_LIST_EMPTY e h \<longrightarrow>
      (let p = pPrev (h e); n = pNext (h e) in
         pNext (CAM_OS_LIST_DEL e h p) = n \<and> pPrev (CAM_OS_LIST_DEL e h n) = p \<and>
         pNext (CAM_OS_LIST_DEL_INIT e h p) = n \<and> pPrev (CAM_OS_LIST_DEL_INIT e h n) = p)) \<and>
   (let h' = CAM_OS_LIST_DEL_INIT e h in
      pNext (h' e) = e \<and> pPrev (h' e) = e \<and> CAM_OS_LIST_EMPTY e h')"
proof (intro conjI)
  show "let h' = CAM_OS_LIST_DEL e h in
      pNext (h' e) = 0x00100100 \<and> pPrev (h' e) = 0x00200200 \<and>
      (e \<noteq> CAM_OS_LIST_POISON1 \<longrightarrow> \<not> CAM_OS_LIST_EMPTY e h') \<and>
      (e \<noteq> CAM_OS_LIST_POISON1 \<and> e \<noteq> CAM_OS_LIST_POISON2 \<longrightarrow>
         pNext (h' e) \<noteq> e \<and> pPrev (h' e) \<noteq> e)"
    by (auto simp add: list_defs Let_def CAM_OS_LIST_POISON1_def CAM_OS_LIST_POISON2_def
        CAM_OS_POISON_POINTER_DELTA_def)
next
  show "pPrev (h (pNext (h e))) = e \<and> pNext (h (pPrev (h e))) = e \<and> \<not> CAM_OS_LIST_EMPTY e h \<longrightarrow>
      (let p = pPrev (h e); n = pNext (h e) in
         pNext (CAM_OS_LIST_DEL e h p) = n \<and> pPrev (CAM_OS_LIST_DEL e h n) = p \<and>
         pNext (CAM_OS_LIST_DEL_INIT e h p) = n \<and> pPrev (CAM_OS_LIST_DEL_INIT e h n) = p)"
  proof
    assume a: "pPrev (h (pNext (h e))) = e \<and> pNext (h (pPrev (h e))) = e \<and>
      \<not> CAM_OS_LIST_EMPTY e h"
    then have n: "pNext (h e) \<noteq> e"
      by (simp add: CAM_OS_LIST_EMPTY_def)
    with a have p: "pPrev (h e) \<noteq> e"
      by auto
    show "let p = pPrev (h e); n = pNext (h e) in
         pNext (CAM_OS_LIST_DEL e h p) = n \<and> pPrev (CAM_OS_LIST_DEL e h n) = p \<and>
         pNext (CAM_OS_LIST_DEL_INIT e h p) = n \<and> pPrev (CAM_OS_LIST_DEL_INIT e h n) = p"
      using n p by (simp add: list_defs Let_def)
  qed
next
  show "let h' = CAM_OS_LIST_DEL_INIT e h in
      pNext (h' e) = e \<and> pPrev (h' e) = e \<and> CAM_OS_LIST_EMPTY e h'"
    by (simp add: list_defs Let_def)
qed

text \<open>
  The witness: head 10 with the one node 20, which is deleted. The head is then an empty
  list again.
\<close>

theorem CAM_OS_LIST_DEL_poisons_witness:
  "(let h = CAM_OS_LIST_ADD 20 10 (CAM_OS_INIT_LIST_HEAD 10 heap_zero) in
      pPrev (h (pNext (h 20))) = 20 \<and> pNext (h (pPrev (h 20))) = 20 \<and>
      \<not> CAM_OS_LIST_EMPTY 20 h \<and>
      20 \<noteq> CAM_OS_LIST_POISON1 \<and> 20 \<noteq> CAM_OS_LIST_POISON2 \<and>
      pNext (CAM_OS_LIST_DEL 20 h 10) = 10 \<and> pPrev (CAM_OS_LIST_DEL 20 h 10) = 10 \<and>
      pNext (CAM_OS_LIST_DEL 20 h 20) = 0x00100100 \<and>
      pPrev (CAM_OS_LIST_DEL 20 h 20) = 0x00200200 \<and>
      \<not> CAM_OS_LIST_EMPTY 20 (CAM_OS_LIST_DEL 20 h) \<and>
      CAM_OS_LIST_EMPTY 20 (CAM_OS_LIST_DEL_INIT 20 h) \<and>
      CAM_OS_LIST_EMPTY 10 (CAM_OS_LIST_DEL_INIT 20 h))"
  using CAM_OS_LIST_DEL_poisons
    [of 20 "CAM_OS_LIST_ADD 20 10 (CAM_OS_INIT_LIST_HEAD 10 heap_zero)"]
  by (simp add: list_defs Let_def heap_zero_def CAM_OS_LIST_POISON1_def CAM_OS_LIST_POISON2_def
      CAM_OS_POISON_POINTER_DELTA_def)

section \<open>Hashing into a table\<close>

lemma shift_right_Some:
  fixes x :: "'a::len word"
  assumes "unat n < LENGTH('a)"
  shows "\<exists>y. shift_right x n = Some y \<and> unat y = unat x div 2 ^ unat n"
proof -
  have "unat (drop_bit (unat n) x) = drop_bit (unat n) (unat x)"
    by (rule unat_drop_bit_eq)
  also have "\<dots> = unat x div 2 ^ unat n"
    by (rule drop_bit_eq_div)
  finally show ?thesis
    using assms by (simp add: shift_right_def)
qed

lemma unat_width_minus:
  fixes bits :: u32
  assumes "unat bits \<le> w" "w \<le> 64"
  shows "unat (of_nat w - bits) = w - unat bits"
proof -
  have w: "unat (of_nat w :: u32) = w"
    using assms(2) by (simp add: unat_of_nat)
  then have "bits \<le> of_nat w"
    using assms(1) by (simp add: word_le_nat_alt)
  then have "unat (of_nat w - bits) = unat (of_nat w :: u32) - unat bits"
    by (rule unat_sub)
  with w show ?thesis by simp
qed

lemma div_pow_less:
  fixes a :: nat
  assumes "a < 2 ^ w" "b \<le> w"
  shows "a div 2 ^ (w - b) < 2 ^ b"
proof -
  have "(2::nat) ^ w = 2 ^ b * 2 ^ (w - b)"
    using assms(2) by (simp flip: power_add)
  with assms(1) have "a < 2 ^ b * 2 ^ (w - b)" by simp
  then show ?thesis
    by (simp add: less_mult_imp_div_less)
qed

lemma hash_shift_range:
  fixes hash :: "'a::len word" and bits :: u32
  assumes "1 \<le> unat bits" "unat bits \<le> LENGTH('a)" "LENGTH('a) \<le> 64"
  shows "\<exists>h. shift_right hash (of_nat LENGTH('a) - bits) = Some h \<and>
           unat h = unat hash div 2 ^ (LENGTH('a) - unat bits) \<and>
           unat h < 2 ^ unat bits"
proof -
  have cnt: "unat (of_nat LENGTH('a) - bits) = LENGTH('a) - unat bits"
    using assms(2,3) by (rule unat_width_minus)
  then have "unat (of_nat LENGTH('a) - bits) < LENGTH('a)"
    using assms(1) by simp
  then obtain h where h: "shift_right hash (of_nat LENGTH('a) - bits) = Some h"
    "unat h = unat hash div 2 ^ unat (of_nat LENGTH('a) - bits)"
    using shift_right_Some by blast
  have "unat hash < 2 ^ LENGTH('a)"
    by (rule unsigned_less)
  then have "unat hash div 2 ^ (LENGTH('a) - unat bits) < 2 ^ unat bits"
    using assms(2) by (rule div_pow_less)
  with h show ?thesis
    by (simp add: cnt)
qed

lemma unat_GOLDEN_RATIO_PRIME_32:
  "unat CAM_OS_GOLDEN_RATIO_PRIME_32 = 0x9e370001"
  by (simp add: CAM_OS_GOLDEN_RATIO_PRIME_32_def)

lemma unat_GOLDEN_RATIO_PRIME_64:
  "unat CAM_OS_GOLDEN_RATIO_PRIME_64 = 0x9e37fffffffc0001"
  by (simp add: CAM_OS_GOLDEN_RATIO_PRIME_64_def)

lemma CAM_OS_HASH_32_range:
  assumes "1 \<le> unat bits" "unat bits \<le> 32"
  shows "\<exists>h. CAM_OS_HASH_32 val bits = Some h \<and>
           unat h = (unat val * 0x9e370001) mod 2 ^ 32 div 2 ^ (32 - unat bits) \<and>
           unat h < 2 ^ unat bits"
proof -
  define hash where "hash = val * CAM_OS_GOLDEN_RATIO_PRIME_32"
  have "unat hash = unat val * unat CAM_OS_GOLDEN_RATIO_PRIME_32 mod 2 ^ LENGTH(32)"
    unfolding hash_def by (rule unat_word_ariths)
  then have uh: "unat hash = (unat val * 0x9e370001) mod 2 ^ 32"
    by (simp only: unat_GOLDEN_RATIO_PRIME_32 len_bit0 len_num1) simp
  have "\<exists>h. shift_right hash (of_nat LENGTH(32) - bits) = Some h \<and>
           unat h = unat hash div 2 ^ (LENGTH(32) - unat bits) \<and> unat h < 2 ^ unat bits"
    using assms by (intro hash_shift_range) simp_all
  then obtain h where "shift_right hash (32 - bits) = Some h"
    "unat h = unat hash div 2 ^ (32 - unat bits)" "unat h < 2 ^ unat bits"
    by auto
  then show ?thesis
    unfolding CAM_OS_HASH_32_def Let_def hash_def [symmetric] uh by blast
qed

lemma CAM_OS_HASH_64_range:
  assumes "1 \<le> unat bits" "unat bits \<le> 64"
  shows "\<exists>h. CAM_OS_HASH_64 val bits = Some h \<and>
           unat h = (unat val * 0x9e37fffffffc0001) mod 2 ^ 64 div 2 ^ (64 - unat bits) \<and>
           unat h < 2 ^ unat bits"
proof -
  define hash where "hash = val * CAM_OS_GOLDEN_RATIO_PRIME_64"
  have "unat hash = unat val * unat CAM_OS_GOLDEN_RATIO_PRIME_64 mod 2 ^ LENGTH(64)"
    unfolding hash_def by (rule unat_word_ariths)
  then have uh: "unat hash = (unat val * 0x9e37fffffffc0001) mod 2 ^ 64"
    by (simp only: unat_GOLDEN_RATIO_PRIME_64 len_bit0 len_num1) simp
  have "\<exists>h. shift_right hash (of_nat LENGTH(64) - bits) = Some h \<and>
           unat h = unat hash div 2 ^ (LENGTH(64) - unat bits) \<and> unat h < 2 ^ unat bits"
    using assms by (intro hash_shift_range) simp_all
  then obtain h where "shift_right hash (64 - bits) = Some h"
    "unat h = unat hash div 2 ^ (64 - unat bits)" "unat h < 2 ^ unat bits"
    by auto
  then show ?thesis
    unfolding CAM_OS_HASH_64_def Let_def hash_def [symmetric] uh by blast
qed

lemma CAM_OS_HASH_BITS_bounds:
  assumes "2 \<le> N" "N < 2 ^ 32"
  shows "1 \<le> unat (CAM_OS_HASH_BITS N) \<and> unat (CAM_OS_HASH_BITS N) \<le> 32 \<and>
         2 ^ unat (CAM_OS_HASH_BITS N) \<le> N"
proof -
  define w where "w = floorlog 2 N"
  have "int N < int (2 ^ 32)"
    using assms(2) by (simp only: of_nat_less_iff)
  then have "int N < 2 ^ (8 * 4)"
    by simp
  then have u: "unat (CAM_OS_HASH_BITS N) + 1 = w"
    using assms(1) CAM_OS_ILOG2_unat [of "int N" 4 Long32 True]
    by (simp add: CAM_OS_HASH_BITS_def w_def)
  have pw: "2 ^ (w - 1) \<le> N"
    unfolding w_def using assms(1) floorlog_bounds [of N 2] by simp
  have w32: "w \<le> 32"
    unfolding w_def using assms(2) by (intro floorlog_leI) simp_all
  have w2: "2 \<le> w"
    unfolding w_def using assms(1) by (intro floorlog_geI) simp_all
  have e: "unat (CAM_OS_HASH_BITS N) = w - 1"
    using u by simp
  have "1 \<le> w - 1" "w - 1 \<le> 32"
    using w2 w32 by linarith+
  with pw show ?thesis
    by (simp only: e)
qed

lemma CAM_OS_HASH_ADD_index_in_table:
  assumes "2 \<le> N" "N < 2 ^ 32"
  shows "\<exists>i. CAM_OS_HASH_ADD_index N sizeof_key key = Some i \<and> unat i < N"
proof -
  define bits where "bits = CAM_OS_HASH_BITS N"
  have b: "1 \<le> unat bits" "unat bits \<le> 32" "2 ^ unat bits \<le> N"
    using CAM_OS_HASH_BITS_bounds [OF assms] by (simp_all add: bits_def)
  obtain h where "CAM_OS_HASH_32 (word_of_int key) bits = Some h" "unat h < 2 ^ unat bits"
    using CAM_OS_HASH_32_range [OF b(1,2)] by blast
  with b(3) show ?thesis
    by (simp add: CAM_OS_HASH_ADD_index_def CAM_OS_HASH_MIN_def flip: bits_def)
qed

text \<open>
  C4, as stated, ends with: the bucket index \<^verbatim>\<open>CAM_OS_HASH_MIN(key, CAM_OS_HASH_BITS(hashtable))\<close>
  of \<^verbatim>\<open>CAM_OS_HASH_ADD\<close> is always within the table. For a table of one bucket
  (\<^verbatim>\<open>CAM_OS_DEFINE_HASHTABLE(name, 0)\<close>) \<^verbatim>\<open>CAM_OS_HASH_BITS\<close> is 0 and \<^verbatim>\<open>CAM_OS_HASH_32\<close> shifts
  its 32-bit hash right by 32, which C leaves undefined: no index is computed.
\<close>

theorem CAM_OS_HASH_ADD_index_one_bucket:
  "CAM_OS_HASH_BITS 1 = 0 \<and> CAM_OS_HASH_ADD_index 1 4 12345 = None \<and>
   \<not> (\<exists>i. CAM_OS_HASH_ADD_index 1 4 12345 = Some i \<and> unat i < 1)"
proof -
  have "ilog2_chain 1 = 0"
    by (simp add: ilog2_chain_def upt_rec numeral_eq_Suc)
  then have "CAM_OS_HASH_BITS 1 = 0"
    by (simp add: CAM_OS_HASH_BITS_def CAM_OS_ILOG2_def)
  then show ?thesis
    by (simp add: CAM_OS_HASH_ADD_index_def CAM_OS_HASH_MIN_def CAM_OS_HASH_32_def
        shift_right_def)
qed

text \<open>
  C4, amended. For every \<open>val\<close> and every \<open>bits\<close> with \<open>1 \<le> bits \<le> 32\<close>,
  \<^verbatim>\<open>CAM_OS_HASH_32(val, bits)\<close> is \<open>((val * 0x9e370001) mod 2\<^sup>3\<^sup>2) >> (32 - bits)\<close> and is less
  than \<open>2\<^sup>b\<^sup>i\<^sup>t\<^sup>s\<close>; likewise \<^verbatim>\<open>CAM_OS_HASH_64\<close> with \<open>0x9e37fffffffc0001\<close>, width 64 and
  \<open>1 \<le> bits \<le> 64\<close>; hence for a table of at least two buckets the index
  \<^verbatim>\<open>CAM_OS_HASH_MIN(key, CAM_OS_HASH_BITS(hashtable))\<close> of \<^verbatim>\<open>CAM_OS_HASH_ADD\<close> is within the
  table.
\<close>

theorem CAM_OS_HASH_in_range:
  "(1 \<le> unat bits \<and> unat bits \<le> 32 \<longrightarrow>
      (\<exists>h. CAM_OS_HASH_32 val bits = Some h \<and>
           unat h = (unat val * 0x9e370001) mod 2 ^ 32 div 2 ^ (32 - unat bits) \<and>
           unat h < 2 ^ unat bits)) \<and>
   (1 \<le> unat bits \<and> unat bits \<le> 64 \<longrightarrow>
      (\<exists>h. CAM_OS_HASH_64 val64 bits = Some h \<and>
           unat h = (unat val64 * 0x9e37fffffffc0001) mod 2 ^ 64 div 2 ^ (64 - unat bits) \<and>
           unat h < 2 ^ unat bits)) \<and>
   (2 \<le> N \<and> N < 2 ^ 32 \<longrightarrow>
      (\<exists>i. CAM_OS_HASH_ADD_index N sizeof_key key = Some i \<and> unat i < N))"
proof (intro conjI impI)
  assume "1 \<le> unat bits \<and> unat bits \<le> 32"
  then show "\<exists>h. CAM_OS_HASH_32 val bits = Some h \<and>
      unat h = (unat val * 0x9e370001) mod 2 ^ 32 div 2 ^ (32 - unat bits) \<and>
      unat h < 2 ^ unat bits"
    by (intro CAM_OS_HASH_32_range) simp_all
next
  assume "1 \<le> unat bits \<and> unat bits \<le> 64"
  then show "\<exists>h. CAM_OS_HASH_64 val64 bits = Some h \<and>
      unat h = (unat val64 * 0x9e37fffffffc0001) mod 2 ^ 64 div 2 ^ (64 - unat bits) \<and>
      unat h < 2 ^ unat bits"
    by (intro CAM_OS_HASH_64_range) simp_all
next
  assume "2 \<le> N \<and> N < 2 ^ 32"
  then show "\<exists>i. CAM_OS_HASH_ADD_index N sizeof_key key = Some i \<and> unat i < N"
    by (intro CAM_OS_HASH_ADD_index_in_table) simp_all
qed

theorem CAM_OS_HASH_in_range_witness:
  "1 \<le> unat (8 :: u32) \<and> unat (8 :: u32) \<le> 32 \<and> unat (8 :: u32) \<le> 64 \<and>
   (2::nat) \<le> 256 \<and> (256::nat) < 2 ^ 32 \<and>
   (\<exists>h. CAM_OS_HASH_32 12345 8 = Some h \<and> unat h = 138 \<and> unat h < 2 ^ 8) \<and>
   (\<exists>h. CAM_OS_HASH_64 12345 8 = Some h \<and> unat h = 186 \<and> unat h < 2 ^ 8) \<and>
   (\<exists>i. CAM_OS_HASH_ADD_index 256 4 12345 = Some i \<and> unat i < 256)"
  using CAM_OS_HASH_in_range [of 8 12345 12345 256 4 12345] by simp

section \<open>Programs over circular lists\<close>

subsection \<open>Reachability\<close>

lemma on_list_head: "a \<in> H \<Longrightarrow> on_list h H a"
  unfolding on_list_def by (blast intro: reach_self)

lemma on_list_next: "on_list h H p \<Longrightarrow> on_list h H (pNext (h p))"
  unfolding on_list_def by (blast intro: reach_next)

lemma reach_closed:
  assumes "reach h a p" "a \<in> S" "\<And>q. q \<in> S \<Longrightarrow> pNext (h q) \<in> S"
  shows "p \<in> S"
  using assms by (induction rule: reach.induct) simp_all

lemma on_list_closed:
  assumes "on_list h H p" "H \<subseteq> S" "\<And>q. q \<in> S \<Longrightarrow> pNext (h q) \<in> S"
  shows "p \<in> S"
proof -
  obtain a where "a \<in> H" "reach h a p"
    using assms(1) by (auto simp add: on_list_def)
  with assms(2,3) show ?thesis
    by (intro reach_closed [of h a p S]) auto
qed

lemma CAM_OS_LIST_EMPTY_iff_ring: "CAM_OS_LIST_EMPTY a h \<longleftrightarrow> ring h a = {a}"
proof
  assume "CAM_OS_LIST_EMPTY a h"
  then have self: "pNext (h a) = a"
    by (simp add: CAM_OS_LIST_EMPTY_def)
  have "p = a" if "reach h a p" for p
    using that by (induction rule: reach.induct) (simp_all add: self)
  then show "ring h a = {a}"
    by (auto simp add: ring_def intro: reach_self)
next
  assume "ring h a = {a}"
  moreover have "pNext (h a) \<in> ring h a"
    by (simp add: ring_def reach_next reach_self)
  ultimately show "CAM_OS_LIST_EMPTY a h"
    by (simp add: CAM_OS_LIST_EMPTY_def)
qed

subsection \<open>The fields after an operation\<close>

lemma u_CAM_OS_LIST_ADD_fields:
  assumes "pNew \<noteq> prev" "pNew \<noteq> next"
  shows "pNext (u_CAM_OS_LIST_ADD pNew prev next h q) =
           (if q = prev then pNew else if q = pNew then next else pNext (h q))"
    and "pPrev (u_CAM_OS_LIST_ADD pNew prev next h q) =
           (if q = pNew then prev else if q = next then pNew else pPrev (h q))"
  using assms by (simp_all add: u_CAM_OS_LIST_ADD_def set_pNext_def set_pPrev_def)

lemma CAM_OS_LIST_DEL_INIT_fields:
  shows "pNext (CAM_OS_LIST_DEL_INIT e h q) =
           (if q = e then e else if q = pPrev (h e) then pNext (h e) else pNext (h q))"
    and "pPrev (CAM_OS_LIST_DEL_INIT e h q) =
           (if q = e then e else if q = pNext (h e) then pPrev (h e) else pPrev (h q))"
  by (simp_all add: CAM_OS_LIST_DEL_INIT_def u_CAM_OS_LIST_DEL_ENTRY_def u_CAM_OS_LIST_DEL_def
      CAM_OS_INIT_LIST_HEAD_def set_pNext_def set_pPrev_def)

lemma init_heads_fields:
  "pNext (init_heads hs h q) = (if q \<in> set hs then q else pNext (h q))"
  "pPrev (init_heads hs h q) = (if q \<in> set hs then q else pPrev (h q))"
  unfolding init_heads_def
  by (induction hs arbitrary: h)
    (simp_all add: CAM_OS_INIT_LIST_HEAD_def set_pNext_def set_pPrev_def)


subsection \<open>Insertion keeps the lists well formed\<close>

lemma u_CAM_OS_LIST_ADD_on_list:
  assumes ok: "lists_ok h H" and prev: "on_list h H prev" and new: "\<not> on_list h H pNew"
    and nx: "next = pNext (h prev)"
  shows "on_list (u_CAM_OS_LIST_ADD pNew prev next h) H q \<longleftrightarrow> on_list h H q \<or> q = pNew"
proof -
  let ?h' = "u_CAM_OS_LIST_ADD pNew prev next h"
  have nn: "on_list h H next"
    unfolding nx using prev by (rule on_list_next)
  have ne: "pNew \<noteq> prev" "pNew \<noteq> next"
    using prev nn new by auto
  note f = u_CAM_OS_LIST_ADD_fields [OF ne]
  have old: "reach ?h' a p" if "reach h a p" "a \<in> H" for a p
    using that
  proof (induction rule: reach.induct)
    case reach_self
    show ?case by (rule reach.reach_self)
  next
    case (reach_next p)
    then have r: "reach ?h' a p" by simp
    have "on_list h H p"
      using reach_next.hyps reach_next.prems by (auto simp add: on_list_def)
    then have pn: "p \<noteq> pNew" using new by auto
    show ?case
    proof (cases "p = prev")
      case True
      have "reach ?h' a (pNext (?h' p))"
        using r by (rule reach.reach_next)
      then have "reach ?h' a pNew"
        using True by (simp add: f)
      then have "reach ?h' a (pNext (?h' pNew))"
        by (rule reach.reach_next)
      then have "reach ?h' a next"
        using ne by (simp add: f)
      then show ?thesis
        by (simp only: nx True)
    next
      case False
      have "reach ?h' a (pNext (?h' p))"
        using r by (rule reach.reach_next)
      then show ?thesis
        using False pn by (simp add: f)
    qed
  qed
  show ?thesis
  proof
    assume "on_list ?h' H q"
    then have "q \<in> {q. on_list h H q \<or> q = pNew}"
    proof (rule on_list_closed)
      show "H \<subseteq> {q. on_list h H q \<or> q = pNew}"
        by (auto intro: on_list_head)
    next
      fix p
      assume "p \<in> {q. on_list h H q \<or> q = pNew}"
      then show "pNext (?h' p) \<in> {q. on_list h H q \<or> q = pNew}"
        using nn by (auto simp add: f intro: on_list_next)
    qed
    then show "on_list h H q \<or> q = pNew" by simp
  next
    assume "on_list h H q \<or> q = pNew"
    then show "on_list ?h' H q"
    proof
      assume "on_list h H q"
      then show ?thesis
        using old by (auto simp add: on_list_def)
    next
      assume q: "q = pNew"
      have "on_list ?h' H prev"
        using prev old by (auto simp add: on_list_def)
      then have "on_list ?h' H (pNext (?h' prev))"
        by (rule on_list_next)
      then show ?thesis
        by (simp add: f q)
    qed
  qed
qed

lemma u_CAM_OS_LIST_ADD_lists_ok:
  assumes ok: "lists_ok h H" and prev: "on_list h H prev" and new: "\<not> on_list h H pNew"
    and nx: "next = pNext (h prev)"
  shows "lists_ok (u_CAM_OS_LIST_ADD pNew prev next h) H"
proof -
  let ?h' = "u_CAM_OS_LIST_ADD pNew prev next h"
  have nn: "on_list h H next"
    unfolding nx using prev by (rule on_list_next)
  have ne: "pNew \<noteq> prev" "pNew \<noteq> next"
    using prev nn new by auto
  note f = u_CAM_OS_LIST_ADD_fields [OF ne]
  note on = u_CAM_OS_LIST_ADD_on_list [OF ok prev new nx]
  have inv: "on_list h H (pPrev (h p))" "pPrev (h (pNext (h p))) = p" "pNext (h (pPrev (h p))) = p"
    if "on_list h H p" for p
    using ok that by (simp_all add: lists_ok_def)
  have pn: "pPrev (h next) = prev"
    using inv(2) [OF prev] by (simp add: nx)
  show ?thesis
    unfolding lists_ok_def
  proof (intro allI impI)
    fix q
    assume "on_list ?h' H q"
    then consider "q = pNew" | "on_list h H q" "q \<noteq> pNew"
      using on new by auto
    then show "on_list ?h' H (pPrev (?h' q)) \<and> pPrev (?h' (pNext (?h' q))) = q \<and>
        pNext (?h' (pPrev (?h' q))) = q"
    proof cases
      case 1
      then show ?thesis
        using prev ne by (simp add: f on)
    next
      case 2
      have a: "on_list ?h' H (pPrev (?h' q))"
        using 2 inv(1) [OF 2(1)] by (simp add: f on)
      have b: "pPrev (?h' (pNext (?h' q))) = q"
      proof (cases "q = prev")
        case True
        then show ?thesis using ne by (simp add: f)
      next
        case False
        have r: "on_list h H (pNext (h q))"
          using 2(1) by (rule on_list_next)
        then have "pNext (h q) \<noteq> pNew"
          using new by auto
        moreover have "pNext (h q) \<noteq> next"
        proof
          assume "pNext (h q) = next"
          then have "pPrev (h (pNext (h q))) = prev"
            by (simp add: pn)
          with inv(2) [OF 2(1)] False show False by simp
        qed
        ultimately show ?thesis
          using False 2 inv(2) [OF 2(1)] by (simp add: f)
      qed
      have c: "pNext (?h' (pPrev (?h' q))) = q"
      proof (cases "q = next")
        case True
        then show ?thesis using 2 ne by (simp add: f)
      next
        case False
        have r: "on_list h H (pPrev (h q))"
          using 2(1) by (rule inv(1))
        then have "pPrev (h q) \<noteq> pNew"
          using new by auto
        moreover have "pPrev (h q) \<noteq> prev"
        proof
          assume "pPrev (h q) = prev"
          then have "pNext (h (pPrev (h q))) = next"
            by (simp add: nx)
          with inv(3) [OF 2(1)] False show False by simp
        qed
        ultimately show ?thesis
          using False 2 inv(3) [OF 2(1)] by (simp add: f)
      qed
      from a b c show ?thesis by simp
    qed
  qed
qed


subsection \<open>Deletion keeps the lists well formed\<close>

lemma CAM_OS_LIST_DEL_INIT_on_list:
  assumes ok: "lists_ok h H" and e: "on_list h H e" and eh: "e \<notin> H"
  shows "on_list (CAM_OS_LIST_DEL_INIT e h) H q \<longleftrightarrow> on_list h H q \<and> q \<noteq> e"
proof -
  let ?h' = "CAM_OS_LIST_DEL_INIT e h"
  note f = CAM_OS_LIST_DEL_INIT_fields
  have inv: "on_list h H (pPrev (h p))" "pPrev (h (pNext (h p))) = p" "pNext (h (pPrev (h p))) = p"
    if "on_list h H p" for p
    using ok that by (simp_all add: lists_ok_def)
  have old: "(p \<noteq> e \<longrightarrow> reach ?h' a p) \<and> (p = e \<longrightarrow> reach ?h' a (pPrev (h e)))"
    if "reach h a p" "a \<in> H" for a p
    using that
  proof (induction rule: reach.induct)
    case reach_self
    then show ?case using eh by (auto intro: reach.reach_self)
  next
    case (reach_next p)
    then have on: "on_list h H p"
      by (auto simp add: on_list_def)
    show ?case
    proof (cases "p = e")
      case True
      then have r: "reach ?h' a (pPrev (h e))"
        using reach_next by simp
      show ?thesis
      proof (cases "pNext (h e) = e")
        case self: True
        with True r show ?thesis by simp
      next
        case False
        then have "pPrev (h e) \<noteq> e"
          using inv(3) [OF e] by auto
        moreover have "reach ?h' a (pNext (?h' (pPrev (h e))))"
          using r by (rule reach.reach_next)
        ultimately show ?thesis
          using True False by (simp add: f)
      qed
    next
      case False
      then have r: "reach ?h' a p"
        using reach_next by simp
      show ?thesis
      proof (cases "pNext (h p) = e")
        case True
        then have "p = pPrev (h e)"
          using inv(2) [OF on] by simp
        with r True show ?thesis by simp
      next
        case next_other: False
        then have "p \<noteq> pPrev (h e)"
          using inv(3) [OF e] by auto
        moreover have "reach ?h' a (pNext (?h' p))"
          using r by (rule reach.reach_next)
        ultimately show ?thesis
          using False next_other by (simp add: f)
      qed
    qed
  qed
  show ?thesis
  proof
    assume "on_list ?h' H q"
    then have "q \<in> {q. on_list h H q \<and> q \<noteq> e}"
    proof (rule on_list_closed)
      show "H \<subseteq> {q. on_list h H q \<and> q \<noteq> e}"
        using eh by (auto intro: on_list_head)
    next
      fix p
      assume "p \<in> {q. on_list h H q \<and> q \<noteq> e}"
      then have p: "on_list h H p" "p \<noteq> e" by simp_all
      show "pNext (?h' p) \<in> {q. on_list h H q \<and> q \<noteq> e}"
      proof (cases "p = pPrev (h e)")
        case True
        have "pNext (h e) \<noteq> e"
        proof
          assume "pNext (h e) = e"
          then have "pPrev (h e) = e"
            using inv(2) [OF e] by simp
          with True p(2) show False by simp
        qed
        then show ?thesis
          using True p(2) e by (simp add: f on_list_next)
      next
        case False
        have "pNext (h p) \<noteq> e"
        proof
          assume "pNext (h p) = e"
          then have "p = pPrev (h e)"
            using inv(2) [OF p(1)] by simp
          with False show False by simp
        qed
        then show ?thesis
          using False p by (simp add: f on_list_next)
      qed
    qed
    then show "on_list h H q \<and> q \<noteq> e" by simp
  next
    assume "on_list h H q \<and> q \<noteq> e"
    then show "on_list ?h' H q"
      using old by (auto simp add: on_list_def)
  qed
qed

lemma CAM_OS_LIST_DEL_INIT_lists_ok:
  assumes ok: "lists_ok h H" and e: "on_list h H e" and eh: "e \<notin> H"
  shows "lists_ok (CAM_OS_LIST_DEL_INIT e h) H"
proof -
  let ?h' = "CAM_OS_LIST_DEL_INIT e h"
  note f = CAM_OS_LIST_DEL_INIT_fields
  note on = CAM_OS_LIST_DEL_INIT_on_list [OF ok e eh]
  have inv: "on_list h H (pPrev (h p))" "pPrev (h (pNext (h p))) = p" "pNext (h (pPrev (h p))) = p"
    if "on_list h H p" for p
    using ok that by (simp_all add: lists_ok_def)
  show ?thesis
    unfolding lists_ok_def
  proof (intro allI impI)
    fix q
    assume "on_list ?h' H q"
    then have q: "on_list h H q" "q \<noteq> e"
      by (simp_all add: on)
    have a: "on_list ?h' H (pPrev (?h' q))"
    proof (cases "q = pNext (h e)")
      case True
      have "pPrev (h e) \<noteq> e"
      proof
        assume "pPrev (h e) = e"
        then have "pNext (h e) = e"
          using inv(3) [OF e] by simp
        with True q(2) show False by simp
      qed
      then show ?thesis
        using True q(2) inv(1) [OF e] by (simp add: f on)
    next
      case False
      have "pPrev (h q) \<noteq> e"
      proof
        assume "pPrev (h q) = e"
        then have "q = pNext (h e)"
          using inv(3) [OF q(1)] by simp
        with False show False by simp
      qed
      then show ?thesis
        using False q inv(1) [OF q(1)] by (simp add: f on)
    qed
    have b: "pPrev (?h' (pNext (?h' q))) = q"
    proof (cases "q = pPrev (h e)")
      case True
      have "pNext (h e) \<noteq> e"
      proof
        assume "pNext (h e) = e"
        then have "pPrev (h e) = e"
          using inv(2) [OF e] by simp
        with True q(2) show False by simp
      qed
      then show ?thesis
        using True q(2) by (simp add: f)
    next
      case False
      have ne: "pNext (h q) \<noteq> e"
      proof
        assume "pNext (h q) = e"
        then have "q = pPrev (h e)"
          using inv(2) [OF q(1)] by simp
        with False show False by simp
      qed
      have "pNext (h q) \<noteq> pNext (h e)"
      proof
        assume "pNext (h q) = pNext (h e)"
        then have "pPrev (h (pNext (h q))) = pPrev (h (pNext (h e)))"
          by simp
        then have "q = e"
          using inv(2) [OF q(1)] inv(2) [OF e] by simp
        with q(2) show False by simp
      qed
      then show ?thesis
        using False q(2) ne inv(2) [OF q(1)] by (simp add: f)
    qed
    have c: "pNext (?h' (pPrev (?h' q))) = q"
    proof (cases "q = pNext (h e)")
      case True
      have "pPrev (h e) \<noteq> e"
      proof
        assume "pPrev (h e) = e"
        then have "pNext (h e) = e"
          using inv(3) [OF e] by simp
        with True q(2) show False by simp
      qed
      then show ?thesis
        using True q(2) by (simp add: f)
    next
      case False
      have ne: "pPrev (h q) \<noteq> e"
      proof
        assume "pPrev (h q) = e"
        then have "q = pNext (h e)"
          using inv(3) [OF q(1)] by simp
        with False show False by simp
      qed
      have "pPrev (h q) \<noteq> pPrev (h e)"
      proof
        assume "pPrev (h q) = pPrev (h e)"
        then have "pNext (h (pPrev (h q))) = pNext (h (pPrev (h e)))"
          by simp
        then have "q = e"
          using inv(3) [OF q(1)] inv(3) [OF e] by simp
        with q(2) show False by simp
      qed
      then show ?thesis
        using False q(2) ne inv(3) [OF q(1)] by (simp add: f)
    qed
    from a b c show "on_list ?h' H (pPrev (?h' q)) \<and> pPrev (?h' (pNext (?h' q))) = q \<and>
        pNext (?h' (pPrev (?h' q))) = q"
      by simp
  qed
qed


subsection \<open>Programs keep the lists well formed\<close>

lemma exec_op_lists_ok:
  assumes ok: "lists_ok h H" and op: "op_ok h H x"
  shows "lists_ok (exec_op x h) H"
proof (cases x)
  case (Add pNew head)
  then show ?thesis
    using ok op by (simp add: CAM_OS_LIST_ADD_def u_CAM_OS_LIST_ADD_lists_ok)
next
  case (AddTail pNew head)
  then have hd: "on_list h H head" and new: "\<not> on_list h H pNew"
    using op by simp_all
  have "on_list h H (pPrev (h head))" "head = pNext (h (pPrev (h head)))"
    using ok hd by (simp_all add: lists_ok_def)
  then have "lists_ok (u_CAM_OS_LIST_ADD pNew (pPrev (h head)) head h) H"
    using ok new by (intro u_CAM_OS_LIST_ADD_lists_ok)
  then show ?thesis
    using AddTail by (simp add: CAM_OS_LIST_ADD_TAIL_def)
next
  case (DelInit e)
  then show ?thesis
    using ok op by (simp add: CAM_OS_LIST_DEL_INIT_lists_ok)
qed

lemma exec_ops_lists_ok:
  assumes "ops_ok h H xs" "lists_ok h H"
  shows "lists_ok (exec_ops xs h) H"
  using assms
proof (induction xs arbitrary: h)
  case Nil
  then show ?case by (simp add: exec_ops_def)
next
  case (Cons x xs)
  then have "lists_ok (exec_op x h) H"
    by (simp add: exec_op_lists_ok)
  with Cons have "lists_ok (exec_ops xs (exec_op x h)) H"
    by simp
  then show ?case by (simp add: exec_ops_def)
qed

lemma init_heads_on_list: "on_list (init_heads hs h0) (set hs) q \<longleftrightarrow> q \<in> set hs"
proof
  assume "on_list (init_heads hs h0) (set hs) q"
  then show "q \<in> set hs"
    by (rule on_list_closed) (simp_all add: init_heads_fields)
next
  assume "q \<in> set hs"
  then show "on_list (init_heads hs h0) (set hs) q"
    by (rule on_list_head)
qed

lemma init_heads_lists_ok: "lists_ok (init_heads hs h0) (set hs)"
  by (simp add: lists_ok_def init_heads_on_list init_heads_fields)

text \<open>
  C6. Starting from heads initialised by \<^verbatim>\<open>CAM_OS_INIT_LIST_HEAD\<close>, every sequence of
  \<^verbatim>\<open>CAM_OS_LIST_ADD\<close>, \<^verbatim>\<open>CAM_OS_LIST_ADD_TAIL\<close> and \<^verbatim>\<open>CAM_OS_LIST_DEL_INIT\<close> calls, each
  inserting a node that is on no list next to a node that is on one, or deleting a node
  (not a head) that is on a list, keeps the invariant of circular doubly linked lists:
  every node \<open>p\<close> reachable from a head has \<^verbatim>\<open>p->pNext->pPrev == p\<close> and
  \<^verbatim>\<open>p->pPrev->pNext == p\<close> (and its predecessor is reachable from a head too), and
  \<^verbatim>\<open>CAM_OS_LIST_EMPTY(a)\<close> holds exactly when \<open>a\<close> is the only node of its ring.
\<close>

theorem list_ops_keep_rings:
  assumes "ops_ok (init_heads hs h0) (set hs) ops"
  shows "let h = exec_ops ops (init_heads hs h0) in
           (\<forall>p. on_list h (set hs) p \<longrightarrow>
                pPrev (h (pNext (h p))) = p \<and> pNext (h (pPrev (h p))) = p \<and>
                on_list h (set hs) (pPrev (h p))) \<and>
           (\<forall>a. CAM_OS_LIST_EMPTY a h \<longleftrightarrow> ring h a = {a})"
proof -
  have "lists_ok (exec_ops ops (init_heads hs h0)) (set hs)"
    using assms init_heads_lists_ok by (rule exec_ops_lists_ok)
  then show ?thesis
    by (simp add: Let_def lists_ok_def CAM_OS_LIST_EMPTY_iff_ring)
qed

text \<open>
  The witness: head 10; node 20 is added after the head, node 30 before it, and node 20
  is deleted. The ring of the head is then 10, 30 and node 20 is a ring of its own.
\<close>

theorem list_ops_keep_rings_witness:
  "ops_ok (init_heads [10] heap_zero) (set [10]) [Add 20 10, AddTail 30 10, DelInit 20] \<and>
   (let h = exec_ops [Add 20 10, AddTail 30 10, DelInit 20] (init_heads [10] heap_zero) in
      on_list h (set [10]) 30 \<and> pNext (h 10) = 30 \<and> pNext (h 30) = 10 \<and>
      pPrev (h (pNext (h 30))) = 30 \<and> pNext (h (pPrev (h 30))) = 30 \<and>
      CAM_OS_LIST_EMPTY 20 h \<and> ring h 20 = {20} \<and> \<not> CAM_OS_LIST_EMPTY 10 h)"
proof -
  define hA where "hA = init_heads [10] heap_zero"
  define hB where "hB = exec_op (Add 20 10) hA"
  define hC where "hC = exec_op (AddTail 30 10) hB"
  define hD where "hD = exec_op (DelInit 20) hC"
  have okA: "lists_ok hA {10}" and onA: "\<And>q. on_list hA {10} q \<longleftrightarrow> q = 10"
    using init_heads_lists_ok [of "[10]" heap_zero] init_heads_on_list [of "[10]" heap_zero]
    by (simp_all add: hA_def)
  have opA: "op_ok hA {10} (Add 20 10)"
    by (simp add: onA)
  have okB: "lists_ok hB {10}"
    unfolding hB_def using okA opA by (rule exec_op_lists_ok)
  have onB: "on_list hB {10} q \<longleftrightarrow> q = 10 \<or> q = 20" for q
    using u_CAM_OS_LIST_ADD_on_list [of hA "{10}" 10 20 "pNext (hA 10)" q] okA
    by (simp add: onA hB_def CAM_OS_LIST_ADD_def)
  have opB: "op_ok hB {10} (AddTail 30 10)"
    by (simp add: onB)
  have okC: "lists_ok hC {10}"
    unfolding hC_def using okB opB by (rule exec_op_lists_ok)
  have hB_fields: "pPrev (hB 10) = 20" "pNext (hB 20) = 10"
    by (simp_all add: hB_def hA_def init_heads_def heap_zero_def list_defs)
  have onC: "on_list hC {10} q \<longleftrightarrow> q = 10 \<or> q = 20 \<or> q = 30" for q
    using u_CAM_OS_LIST_ADD_on_list [of hB "{10}" "pPrev (hB 10)" 30 10 q] okB
    by (auto simp add: onB hC_def CAM_OS_LIST_ADD_TAIL_def hB_fields)
  have opC: "op_ok hC {10} (DelInit 20)"
    by (simp add: onC)
  have ops: "ops_ok hA {10} [Add 20 10, AddTail 30 10, DelInit 20]"
    using opA opB opC by (simp add: hB_def hC_def)
  have onD: "on_list hD {10} q \<longleftrightarrow> q = 10 \<or> q = 30" for q
    using CAM_OS_LIST_DEL_INIT_on_list [of hC "{10}" 20 q] okC
    by (auto simp add: onC hD_def)
  have hD: "hD = exec_ops [Add 20 10, AddTail 30 10, DelInit 20] (init_heads [10] heap_zero)"
    by (simp add: hD_def hC_def hB_def hA_def exec_ops_def)
  have vals: "pNext (hD 10) = 30" "pNext (hD 30) = 10" "pNext (hD 20) = 20"
    by (simp_all add: hD_def hC_def hB_def hA_def init_heads_def heap_zero_def list_defs)
  have hyp: "ops_ok (init_heads [10] heap_zero) (set [10]) [Add 20 10, AddTail 30 10, DelInit 20]"
    using ops by (simp add: hA_def)
  have rings: "(\<forall>p. on_list hD (set [10]) p \<longrightarrow>
        pPrev (hD (pNext (hD p))) = p \<and> pNext (hD (pPrev (hD p))) = p \<and>
        on_list hD (set [10]) (pPrev (hD p))) \<and>
      (\<forall>a. CAM_OS_LIST_EMPTY a hD \<longleftrightarrow> ring hD a = {a})"
    using list_ops_keep_rings [OF hyp] unfolding Let_def hD [symmetric] .
  have on30: "on_list hD (set [10]) 30"
    using onD [of 30] by simp
  with rings have inst: "pPrev (hD (pNext (hD 30))) = 30" "pNext (hD (pPrev (hD 30))) = 30"
    by blast+
  have e20: "CAM_OS_LIST_EMPTY 20 hD" and e10: "\<not> CAM_OS_LIST_EMPTY 10 hD"
    using vals by (simp_all add: CAM_OS_LIST_EMPTY_def)
  with rings have r20: "ring hD 20 = {20}"
    by blast
  show ?thesis
    unfolding Let_def hD [symmetric]
    using hyp on30 vals(1,2) inst e20 r20 e10 by (intro conjI)
qed

section \<open>Find first set\<close>

text \<open>
  \<open>x & -x\<close> isolates the lowest set bit of \<open>x\<close>. \<^verbatim>\<open>CAM_OS_FFS\<close> passes it to the 32-bit
  \<^verbatim>\<open>CAM_OS_FLS\<close>: when the lowest set bit is at a position \<open>k < 32\<close> the result is \<open>k + 1\<close>,
  and for a 32-bit \<^verbatim>\<open>unsigned long\<close> that is always so; when \<open>k \<ge> 32\<close> the bit is lost in
  the conversion and the result is 0.
\<close>

lemma odd_and_neg:
  fixes y :: "'a::len word"
  assumes "odd y"
  shows "y AND - y = 1"
proof -
  define z where "z = y - 1"
  have ez: "even z"
    using assms by (simp add: z_def)
  have y: "y = z OR 1"
    using ez by (simp add: or_one_eq z_def)
  have "- y = NOT z"
    by (simp add: minus_eq_not_minus_1 z_def)
  then have "y AND - y = (z OR 1) AND NOT z"
    using y by simp
  also have "\<dots> = 1 AND NOT z"
    by (rule bit_word_eqI) (auto simp add: bit_simps)
  also have "\<dots> = 1"
    using ez by (simp add: one_and_eq mod_2_eq_odd)
  finally show ?thesis .
qed

lemma and_neg_lowest_bit:
  fixes x :: "'a::len word"
  assumes k: "bit x k" and low: "\<And>j. j < k \<Longrightarrow> \<not> bit x j"
  shows "x AND - x = push_bit k 1"
proof -
  define y where "y = drop_bit k x"
  have "take_bit k x = 0"
    by (rule bit_word_eqI) (simp add: bit_simps low)
  then have x: "x = push_bit k y"
    using bits_ident [of k x] by (simp add: y_def)
  have "odd y"
    using k by (simp add: y_def bit_iff_odd_drop_bit)
  then have "y AND - y = 1"
    by (rule odd_and_neg)
  moreover have "- x = push_bit k (- y)"
    by (simp add: x push_bit_eq_mult)
  ultimately show ?thesis
    by (metis x push_bit_and)
qed


lemma ucast_isolated_bit:
  fixes x :: "'a::len word"
  assumes "bit x k"
  shows "(ucast (push_bit k 1 :: 'a word) :: u32) = (if k < 32 then push_bit k 1 else 0)"
proof -
  have "k < LENGTH('a)"
    using assms by (rule bit_imp_le_length)
  then show ?thesis
    by (intro bit_word_eqI) (auto simp add: bit_simps)
qed

lemma CAM_OS_FFS_lowest_bit:
  fixes x :: "'a::len word"
  assumes k: "bit x k" and low: "\<And>j. j < k \<Longrightarrow> \<not> bit x j"
  shows "unat (CAM_OS_FFS x) = (if k < 32 then k + 1 else 0)"
proof -
  have iso: "x AND - x = push_bit k 1"
    using k low by (rule and_neg_lowest_bit)
  have uc: "(ucast (x AND - x) :: u32) = (if k < 32 then push_bit k 1 else 0)"
    unfolding iso using k by (rule ucast_isolated_bit)
  show ?thesis
  proof (cases "k < 32")
    case True
    have "(2::nat) ^ k < 2 ^ 32"
      using True by (intro power_strict_increasing) simp_all
    then have p: "unat (push_bit k 1 :: u32) = 2 ^ k"
      using unat_push_bit_small [of "1 :: u32" k] by simp
    have "unat (CAM_OS_FFS x) = floorlog 2 (unat (push_bit k 1 :: u32))"
      unfolding CAM_OS_FFS_def uc using True by (simp only: if_True CAM_OS_FLS_floorlog)
    also have "\<dots> = floorlog 2 (2 ^ k)"
      by (simp only: p)
    also have "\<dots> = k + 1"
      by (rule floorlog_eqI) simp_all
    finally show ?thesis
      using True by simp
  next
    case False
    have "CAM_OS_FFS x = CAM_OS_FLS 0"
      unfolding CAM_OS_FFS_def uc using False by (simp only: if_False)
    then show ?thesis
      using False by (simp add: CAM_OS_FLS_def)
  qed
qed

lemma CAM_OS_FFS_zero: "CAM_OS_FFS 0 = 0"
  by (simp add: CAM_OS_FFS_def CAM_OS_FLS_def)

lemma CAM_OS_FFS_long32:
  fixes x :: u32
  assumes "bit x k" "\<And>j. j < k \<Longrightarrow> \<not> bit x j"
  shows "unat (CAM_OS_FFS x) = k + 1"
proof -
  have "k < 32"
    using assms(1) bit_imp_le_length [of x k] by simp
  then show ?thesis
    using CAM_OS_FFS_lowest_bit [OF assms] by simp
qed

lemma CAM_OS_FFZ_lowest_clear:
  fixes x :: "'a::len word"
  assumes k: "\<not> bit x k" "k < LENGTH('a)" and low: "\<And>j. j < k \<Longrightarrow> bit x j" and k32: "k < 32"
  shows "CAM_OS_FFZ x = of_nat k"
proof -
  have nk: "bit (NOT x) k"
    using k by (simp add: bit_simps)
  have nlow: "\<not> bit (NOT x) j" if "j < k" for j
    using low [OF that] by (simp add: bit_simps)
  have u: "unat (CAM_OS_FFS (NOT x)) = k + 1"
    using CAM_OS_FFS_lowest_bit [OF nk nlow] k32 by simp
  have "unat (of_nat (k + 1) :: s32) = (k + 1) mod 2 ^ LENGTH(32)"
    by (rule unat_of_nat)
  also have "\<dots> = k + 1"
    using k32 by simp
  finally have "unat (of_nat (k + 1) :: s32) = k + 1" .
  with u have "CAM_OS_FFS (NOT x) = of_nat (k + 1)"
    by (simp only: word_unat_eq_iff)
  then have m: "CAM_OS_FFS (NOT x) - 1 = of_nat k"
    by simp
  have "sint (of_nat k :: s32) = int (unat (of_nat k :: s32))"
    using k32 by (intro sint_small) (simp add: unat_of_nat)
  also have "\<dots> = int k"
    using k32 by (simp only: unat_of_nat) simp
  finally have "(scast (of_nat k :: s32) :: 'a word) = of_nat k"
    by (simp add: scast_eq)
  then show ?thesis
    by (simp add: CAM_OS_FFZ_def u_CAM_OS_FFS_def m)
qed

text \<open>
  C2 says that \<^verbatim>\<open>CAM_OS_FFS(x)\<close> is the 1-based index of the least significant set bit of
  the \<^verbatim>\<open>unsigned long\<close> \<open>x\<close> for \<^verbatim>\<open>CAM_OS_BITS_PER_LONG\<close> 32 or 64, and that
  \<^verbatim>\<open>CAM_OS_FFZ(x)\<close> is the 0-based index of its lowest clear bit. With a 64-bit
  \<^verbatim>\<open>unsigned long\<close> the call \<^verbatim>\<open>CAM_OS_FLS(x & -x)\<close> passes a 64-bit value to an \<^verbatim>\<open>s32\<close>
  parameter: a lowest set bit at position 32 or above is cut off. At \<open>x = 2\<^sup>3\<^sup>2\<close> the code
  returns 0 where the claim says 33, and \<^verbatim>\<open>CAM_OS_FFZ(0xFFFFFFFF)\<close> is \<open>2\<^sup>6\<^sup>4 - 1\<close> where the
  claim says 32. Below bit 32 the two agree (the last two conjuncts).
\<close>

theorem CAM_OS_FFS_long64_truncates:
  "CAM_OS_FFS (0x100000000 :: u64) = 0 \<and>
   CAM_OS_FFZ (0xFFFFFFFF :: u64) = 0xFFFFFFFFFFFFFFFF \<and>
   CAM_OS_FFS (0x10 :: u64) = 5 \<and> CAM_OS_FFZ (0xF :: u64) = 4"
  by (simp add: CAM_OS_FFS_def CAM_OS_FFZ_def u_CAM_OS_FFS_def CAM_OS_FLS_def fls_step_def)


end
